theory Spec2Isabelle
  imports Complex_Main "HOL-Library.Word"
begin

section \<open>The extension function \<open>compute_intensive\<close> of example_extension.c\<close>

subsection \<open>Data model\<close>

text \<open>
  The C type \<open>int\<close> of the argument \<open>n\<close> and of the loop counters \<open>i\<close> and \<open>j\<close>:
  a 32-bit two's complement integer, read with \<open>sint\<close>.
\<close>

type_synonym cint = "32 word"

definition INT_MAX :: int where
  "INT_MAX = 2147483647"

text \<open>
  The function has one error return of its own (\<open>return NULL\<close> when
  \<open>PyArg_ParseTuple\<close> fails).  Incrementing an \<open>int\<close> that holds \<open>INT_MAX\<close> is
  undefined in C; the model makes that an outcome of its own, so that its absence is a
  theorem and not an assumption.
\<close>

datatype error = InvalidArgument | SignedOverflow

text \<open>
  The type \<open>double\<close> and the operations on it that the function uses are not code of
  the extension: \<open>sin\<close> and \<open>cos\<close> come from the C library, \<open>+\<close>, \<open>*\<close> and the
  conversion from \<open>int\<close> from the compiler and the hardware.  They are parameters of the
  model, collected in a record; \<open>'d\<close> is the type of double-precision values.
\<close>

record 'd fpu =
  dzero :: 'd
  dof_int :: "int \<Rightarrow> 'd"
  dsin :: "'d \<Rightarrow> 'd"
  dcos :: "'d \<Rightarrow> 'd"
  dmul :: "'d \<Rightarrow> 'd \<Rightarrow> 'd"
  dadd :: "'d \<Rightarrow> 'd \<Rightarrow> 'd"

subsection \<open>The function\<close>

text \<open>\<open>i++\<close> and \<open>j++\<close> on an \<open>int\<close>.\<close>

definition incr :: "cint \<Rightarrow> error + cint" where
  "incr i = (if sint i < INT_MAX then Inr (i + 1) else Inl SignedOverflow)"

text \<open>The expression \<open>sin(i) * cos(j)\<close>; both counters are converted to \<open>double\<close>.\<close>

definition summand :: "'d fpu \<Rightarrow> cint \<Rightarrow> cint \<Rightarrow> 'd" where
  "summand fp i j = dmul fp (dsin fp (dof_int fp (sint i))) (dcos fp (dof_int fp (sint j)))"

text \<open>
  \<open>for (int j = 0; j < n; j++) { result += sin(i) * cos(j); }\<close>, entered at the test
  \<open>j < n\<close>.  \<open>None\<close> is the loop that does not return.
\<close>

partial_function (option) inner_loop ::
  "'d fpu \<Rightarrow> cint \<Rightarrow> cint \<Rightarrow> cint \<Rightarrow> 'd \<Rightarrow> (error + 'd) option"
where
  "inner_loop fp n i j result =
     (if sint j < sint n then
        (case incr j of
           Inl e \<Rightarrow> Some (Inl e)
         | Inr j' \<Rightarrow> inner_loop fp n i j' (dadd fp result (summand fp i j)))
      else Some (Inr result))"

text \<open>\<open>for (int i = 0; i < n; i++) { for (int j = 0; ...) ... }\<close>, entered at \<open>i < n\<close>.\<close>

partial_function (option) outer_loop ::
  "'d fpu \<Rightarrow> cint \<Rightarrow> cint \<Rightarrow> 'd \<Rightarrow> (error + 'd) option"
where
  "outer_loop fp n i result =
     (if sint i < sint n then
        (case inner_loop fp n i 0 result of
           None \<Rightarrow> None
         | Some (Inl e) \<Rightarrow> Some (Inl e)
         | Some (Inr result') \<Rightarrow>
             (case incr i of
                Inl e \<Rightarrow> Some (Inl e)
              | Inr i' \<Rightarrow> outer_loop fp n i' result'))
      else Some (Inr result))"

text \<open>
  The function itself.  \<open>PyArg_ParseTuple_i\<close> stands for
  \<open>PyArg_ParseTuple(args, "i", &n)\<close> of the host interpreter: \<open>None\<close> when it
  returns 0, \<open>Some n\<close> when it stores \<open>n\<close>.  \<open>PyFloat_FromDouble\<close> boxes the result
  and changes nothing in its value.
\<close>

definition compute_intensive ::
  "'d fpu \<Rightarrow> ('args \<Rightarrow> cint option) \<Rightarrow> 'self \<Rightarrow> 'args \<Rightarrow> (error + 'd) option"
where
  "compute_intensive fp PyArg_ParseTuple_i self args =
     (case PyArg_ParseTuple_i args of
        None \<Rightarrow> Some (Inl InvalidArgument)
      | Some n \<Rightarrow> outer_loop fp n 0 (dzero fp))"

subsection \<open>The specification's description of the result\<close>

text \<open>
  The spec's words: start from \<open>0.0\<close> and add \<open>sin(i) * cos(j)\<close> for all pairs
  \<open>(i, j)\<close> with \<open>0 \<le> i < n\<close> and \<open>0 \<le> j < n\<close>, in \<open>i\<close>-major, \<open>j\<close>-minor order.
  \<open>List.product\<close> lists the pairs in exactly that order.
\<close>

definition nested_sum_spec :: "'d fpu \<Rightarrow> nat \<Rightarrow> 'd" where
  "nested_sum_spec fp n =
     foldl (\<lambda>acc (i, j). dadd fp acc (dmul fp (dsin fp (dof_int fp (int i))) (dcos fp (dof_int fp (int j)))))
       (dzero fp) (List.product [0..<n] [0..<n])"

text \<open>
  The factored form of the same sum: the sines are added up, the cosines are added up,
  and the two sums are multiplied, every operation again being the double-precision one.
\<close>

definition factored_spec :: "'d fpu \<Rightarrow> nat \<Rightarrow> 'd" where
  "factored_spec fp n =
     dmul fp (foldl (\<lambda>s i. dadd fp s (dsin fp (dof_int fp (int i)))) (dzero fp) [0..<n])
             (foldl (\<lambda>c j. dadd fp c (dcos fp (dof_int fp (int j)))) (dzero fp) [0..<n])"

subsection \<open>The free and the exact interpretation of the floating-point operations\<close>

text \<open>
  The free interpretation keeps every operation as a constructor, so a result shows which
  operations were performed, on what, and in which order.
\<close>

datatype dexpr =
  Zero | OfInt int | Sin dexpr | Cos dexpr | Mul dexpr dexpr | Add dexpr dexpr

definition sym_fpu :: "dexpr fpu" where
  "sym_fpu = \<lparr>dzero = Zero, dof_int = OfInt, dsin = Sin, dcos = Cos, dmul = Mul, dadd = Add\<rparr>"

text \<open>The exact interpretation computes in the real numbers, without rounding.\<close>

definition real_fpu :: "real fpu" where
  "real_fpu = \<lparr>dzero = 0, dof_int = of_int, dsin = sin, dcos = cos, dmul = (*), dadd = (+)\<rparr>"

text \<open>An argument parser for closed examples: a tuple of exactly one \<open>int\<close>.\<close>

fun parse_single :: "cint list \<Rightarrow> cint option" where
  "parse_single [n] = Some n"
| "parse_single _ = None"

subsection \<open>The counters of the two loops\<close>

text \<open>
  The values the counter \<open>i\<close> holds when the test \<open>i < n\<close> of the outer loop is
  evaluated: \<open>0\<close> from \<open>int i = 0\<close>, and the result of \<open>i++\<close> after a pass with
  \<open>i < n\<close>.  The counter \<open>j\<close> exists only inside a pass of the outer loop; it starts
  at \<open>0\<close> and is stepped in the same way.
\<close>

inductive i_value :: "cint \<Rightarrow> cint \<Rightarrow> bool" for n :: cint where
  i_init: "i_value n 0"
| i_incr: "i_value n i \<Longrightarrow> sint i < sint n \<Longrightarrow> incr i = Inr i' \<Longrightarrow> i_value n i'"

inductive j_value :: "cint \<Rightarrow> cint \<Rightarrow> bool" for n :: cint where
  j_init: "i_value n i \<Longrightarrow> sint i < sint n \<Longrightarrow> j_value n 0"
| j_incr: "j_value n j \<Longrightarrow> sint j < sint n \<Longrightarrow> incr j = Inr j' \<Longrightarrow> j_value n j'"

code_pred i_value .

code_pred j_value .

text \<open>The statement \<open>result += sin(i) * cos(j)\<close> is executed with the counters at \<open>i\<close> and \<open>j\<close>.\<close>

definition body_runs :: "cint \<Rightarrow> cint \<Rightarrow> cint \<Rightarrow> bool" where
  "body_runs n i j = (i_value n i \<and> sint i < sint n \<and> j_value n j \<and> sint j < sint n)"

text \<open>
  The same two tests, now with the value the accumulator \<open>result\<close> holds when they are
  evaluated: \<open>at_outer_test fp n i result\<close> for \<open>i < n\<close>, \<open>at_inner_test fp n i j result\<close>
  for \<open>j < n\<close>.
\<close>

inductive at_outer_test :: "'d fpu \<Rightarrow> cint \<Rightarrow> cint \<Rightarrow> 'd \<Rightarrow> bool"
  and at_inner_test :: "'d fpu \<Rightarrow> cint \<Rightarrow> cint \<Rightarrow> cint \<Rightarrow> 'd \<Rightarrow> bool"
  for fp :: "'d fpu" and n :: cint
where
  outer_init: "at_outer_test fp n 0 (dzero fp)"
| inner_init: "at_outer_test fp n i result \<Longrightarrow> sint i < sint n \<Longrightarrow> at_inner_test fp n i 0 result"
| inner_next: "at_inner_test fp n i j result \<Longrightarrow> sint j < sint n \<Longrightarrow> incr j = Inr j' \<Longrightarrow>
     at_inner_test fp n i j' (dadd fp result (summand fp i j))"
| outer_next: "at_inner_test fp n i j result \<Longrightarrow> \<not> sint j < sint n \<Longrightarrow> incr i = Inr i' \<Longrightarrow>
     at_outer_test fp n i' result"

code_pred (modes: i \<Rightarrow> i \<Rightarrow> o \<Rightarrow> o \<Rightarrow> bool) at_outer_test .

subsection \<open>IEEE 754 double arithmetic\<close>

text \<open>
  The arithmetic of \<open>double\<close> on the platforms the extension is built for: IEEE 754
  binary64, rounding to nearest, ties to even, each \<open>+\<close> and each \<open>*\<close> rounded on its
  own.  A finite double is given by the real number it stands for (the sign of zero is not
  modelled); \<open>Infinity True\<close> is the negative infinity.
\<close>

datatype double = Finite real | Infinity bool | NaN

fun dfinite :: "double \<Rightarrow> bool" where
  "dfinite (Finite x) = True"
| "dfinite _ = False"

fun dval :: "double \<Rightarrow> real" where
  "dval (Finite x) = x"
| "dval _ = 0"

text \<open>
  The exponent of the unit in the last place at \<open>x\<close>: 53 significant bits, and the
  subnormal range below \<open>2 ^ - 1022\<close>.
\<close>

definition ulp_exponent :: "real \<Rightarrow> int" where
  "ulp_exponent x = max (\<lfloor>log 2 \<bar>x\<bar>\<rfloor> - 52) (- 1074)"

text \<open>The nearest integer, a tie going to the even one.\<close>

definition round_even :: "real \<Rightarrow> int" where
  "round_even q =
     (if q - of_int \<lfloor>q\<rfloor> < 1 / 2 then \<lfloor>q\<rfloor>
      else if 1 / 2 < q - of_int \<lfloor>q\<rfloor> then \<lfloor>q\<rfloor> + 1
      else if even \<lfloor>q\<rfloor> then \<lfloor>q\<rfloor> else \<lfloor>q\<rfloor> + 1)"

text \<open>The nearest multiple of the unit in the last place, without a bound on the exponent.\<close>

definition round_real :: "real \<Rightarrow> real" where
  "round_real x =
     (if x = 0 then 0
      else of_int (round_even (x / 2 powi ulp_exponent x)) * 2 powi ulp_exponent x)"

text \<open>Rounding overflows to an infinity when the rounded value reaches \<open>2 ^ 1024\<close>.\<close>

definition ieee_round :: "real \<Rightarrow> double" where
  "ieee_round x = (if \<bar>round_real x\<bar> < 2 ^ 1024 then Finite (round_real x) else Infinity (x < 0))"

fun ieee_add :: "double \<Rightarrow> double \<Rightarrow> double" where
  "ieee_add (Finite x) (Finite y) = ieee_round (x + y)"
| "ieee_add (Finite x) (Infinity t) = Infinity t"
| "ieee_add (Infinity s) (Finite y) = Infinity s"
| "ieee_add (Infinity s) (Infinity t) = (if s = t then Infinity s else NaN)"
| "ieee_add NaN y = NaN"
| "ieee_add x NaN = NaN"

fun ieee_mul :: "double \<Rightarrow> double \<Rightarrow> double" where
  "ieee_mul (Finite x) (Finite y) = ieee_round (x * y)"
| "ieee_mul (Finite x) (Infinity t) = (if x = 0 then NaN else Infinity (t \<noteq> (x < 0)))"
| "ieee_mul (Infinity s) (Finite y) = (if y = 0 then NaN else Infinity (s \<noteq> (y < 0)))"
| "ieee_mul (Infinity s) (Infinity t) = Infinity (s \<noteq> t)"
| "ieee_mul NaN y = NaN"
| "ieee_mul x NaN = NaN"

text \<open>
  The floating-point unit with IEEE arithmetic; the conversion from \<open>int\<close> rounds (and is
  exact on 32-bit integers); \<open>sin\<close> and \<open>cos\<close> are those of the C library, which the
  standard does not fix.
\<close>

definition ieee_fpu :: "(double \<Rightarrow> double) \<Rightarrow> (double \<Rightarrow> double) \<Rightarrow> double fpu" where
  "ieee_fpu libm_sin libm_cos =
     \<lparr>dzero = Finite 0, dof_int = (\<lambda>k. ieee_round (of_int k)),
      dsin = libm_sin, dcos = libm_cos, dmul = ieee_mul, dadd = ieee_add\<rparr>"

text \<open>A C library whose \<open>sin\<close> and \<open>cos\<close> are correctly rounded.\<close>

fun cr_sin :: "double \<Rightarrow> double" where
  "cr_sin (Finite x) = ieee_round (sin x)"
| "cr_sin _ = NaN"

fun cr_cos :: "double \<Rightarrow> double" where
  "cr_cos (Finite x) = ieee_round (cos x)"
| "cr_cos _ = NaN"

text \<open>A C library whose \<open>sin\<close> and \<open>cos\<close> are correctly rounded at 0, 1, 2 and 3.\<close>

definition correct_upto_3 :: "(double \<Rightarrow> double) \<Rightarrow> (double \<Rightarrow> double) \<Rightarrow> bool" where
  "correct_upto_3 libm_sin libm_cos =
     (libm_sin (Finite 0) = cr_sin (Finite 0) \<and> libm_cos (Finite 0) = cr_cos (Finite 0) \<and>
      libm_sin (Finite 1) = cr_sin (Finite 1) \<and> libm_cos (Finite 1) = cr_cos (Finite 1) \<and>
      libm_sin (Finite 2) = cr_sin (Finite 2) \<and> libm_cos (Finite 2) = cr_cos (Finite 2) \<and>
      libm_sin (Finite 3) = cr_sin (Finite 3) \<and> libm_cos (Finite 3) = cr_cos (Finite 3))"

text \<open>A library function that maps finite doubles to finite doubles between \<open>-1\<close> and \<open>1\<close>.\<close>

definition unit_range :: "(double \<Rightarrow> double) \<Rightarrow> bool" where
  "unit_range f = (\<forall>x. dfinite x \<longrightarrow> dfinite (f x) \<and> \<bar>dval (f x)\<bar> \<le> 1)"

subsection \<open>Floating-point units that approximate the real operations\<close>

text \<open>
  To compare two returned doubles, \<open>num\<close> gives the real number a double stands for,
  and \<open>None\<close> for a double that stands for none (an infinity, a NaN).  A floating-point
  unit is accurate here when, on the small numbers the first passes of the loops produce,
  each of its operations returns a number within \<open>1/1000\<close> of the result of the real
  operation it stands for.  IEEE 754 double arithmetic with any usual C library is far
  more accurate.
\<close>

definition eps :: real where
  "eps = 1 / 1000"

definition accurate_fpu :: "'d fpu \<Rightarrow> ('d \<Rightarrow> real option) \<Rightarrow> bool" where
  "accurate_fpu fp num =
     (num (dzero fp) = Some 0 \<and>
      (\<forall>k. 0 \<le> k \<and> k \<le> 3 \<longrightarrow> num (dof_int fp k) = Some (of_int k)) \<and>
      (\<forall>x a. num x = Some a \<and> \<bar>a\<bar> \<le> 4 \<longrightarrow>
         (\<exists>s. num (dsin fp x) = Some s \<and> \<bar>s - sin a\<bar> \<le> eps)) \<and>
      (\<forall>x a. num x = Some a \<and> \<bar>a\<bar> \<le> 4 \<longrightarrow>
         (\<exists>c. num (dcos fp x) = Some c \<and> \<bar>c - cos a\<bar> \<le> eps)) \<and>
      (\<forall>x y a b. num x = Some a \<and> num y = Some b \<and> \<bar>a\<bar> \<le> 2 \<and> \<bar>b\<bar> \<le> 2 \<longrightarrow>
         (\<exists>p. num (dmul fp x y) = Some p \<and> \<bar>p - a * b\<bar> \<le> eps)) \<and>
      (\<forall>x y a b. num x = Some a \<and> num y = Some b \<and> \<bar>a\<bar> \<le> 32 \<and> \<bar>b\<bar> \<le> 2 \<longrightarrow>
         (\<exists>s. num (dadd fp x y) = Some s \<and> \<bar>s - (a + b)\<bar> \<le> eps)))"

text \<open>The number an IEEE double stands for.\<close>

fun dnum :: "double \<Rightarrow> real option" where
  "dnum (Finite x) = Some x"
| "dnum _ = None"

subsection \<open>Taylor polynomials of the sine\<close>

text \<open>The sum of the first \<open>k\<close> non-zero terms of the sine series.\<close>

fun sin_poly :: "nat \<Rightarrow> real \<Rightarrow> real" where
  "sin_poly 0 x = 0"
| "sin_poly (Suc k) x = sin_poly k x + (- 1) ^ k * x ^ (2 * k + 1) / fact (2 * k + 1)"

subsection \<open>One pass of the inner loop as a fold\<close>

definition row :: "'d fpu \<Rightarrow> 'd \<Rightarrow> nat \<Rightarrow> nat list \<Rightarrow> 'd" where
  "row fp acc i js =
     foldl (\<lambda>a j. dadd fp a (dmul fp (dsin fp (dof_int fp (int i))) (dcos fp (dof_int fp (int j))))) acc js"

subsection \<open>The call inside the host interpreter\<close>

text \<open>
  \<open>compute_intensive\<close> above takes the argument parser as a parameter and returns the
  \<open>double\<close> itself.  This subsection spells out the two calls into the host interpreter,
  \<open>PyArg_ParseTuple(args, "i", &n)\<close> and \<open>PyFloat_FromDouble(result)\<close>, after the
  Python/C API reference, together with the part of the interpreter state they touch.

  The method is registered with \<open>METH_VARARGS\<close>, so \<open>args\<close> is always a tuple.  Its
  items are built-in objects, told apart as far as the format unit \<open>"i"\<close> does.
\<close>

datatype pyobject = PyLong int | PyBool bool | PyFloat | PyUnicode string | PyNone

text \<open>The exceptions the two host calls can set.\<close>

datatype exception = TypeError | OverflowError | MemoryError

definition INT_MIN :: int where
  "INT_MIN = - 2147483648"

text \<open>
  The interpreter state: the error indicator (the pending exception, if any), the float
  objects allocated so far (a reference to a float object is its index in the list), and
  the number of objects the allocator can still provide.
\<close>

record 'd interp =
  error_indicator :: "exception option"
  floats :: "'d list"
  room :: nat

text \<open>
  The conversion done for the format \<open>"i"\<close>: the tuple must hold exactly one item, the item
  must be an integer object (\<open>bool\<close> is a subclass of \<open>int\<close>; \<open>True\<close> is 1 and
  \<open>False\<close> is 0), and its value must fit in a C \<open>int\<close>.  A wrong number of items and an
  item that is not an integer give \<open>TypeError\<close>, an integer out of range gives
  \<open>OverflowError\<close>.
\<close>

fun int_of_args :: "pyobject list \<Rightarrow> exception + cint" where
  "int_of_args [PyLong k] =
     (if INT_MIN \<le> k \<and> k \<le> INT_MAX then Inr (word_of_int k) else Inl OverflowError)"
| "int_of_args [PyBool b] = Inr (if b then 1 else 0)"
| "int_of_args _ = Inl TypeError"

text \<open>
  \<open>PyArg_ParseTuple(args, "i", &n)\<close>: \<open>None\<close> when it returns 0, with the exception
  set; \<open>Some n\<close> when it stores \<open>n\<close>, and then the state is as it was.
\<close>

definition PyArg_ParseTuple_int :: "pyobject list \<Rightarrow> 'd interp \<Rightarrow> cint option \<times> 'd interp" where
  "PyArg_ParseTuple_int args s =
     (case int_of_args args of
        Inl e \<Rightarrow> (None, s\<lparr>error_indicator := Some e\<rparr>)
      | Inr n \<Rightarrow> (Some n, s))"

text \<open>
  \<open>PyFloat_FromDouble(v)\<close>: a reference to a new float object that holds \<open>v\<close>; when no
  object can be allocated, \<open>NULL\<close> (here \<open>None\<close>) with \<open>MemoryError\<close> set.
\<close>

definition PyFloat_FromDouble :: "'d \<Rightarrow> 'd interp \<Rightarrow> nat option \<times> 'd interp" where
  "PyFloat_FromDouble v s =
     (if 0 < room s
      then (Some (length (floats s)), s\<lparr>floats := floats s @ [v], room := room s - 1\<rparr>)
      else (None, s\<lparr>error_indicator := Some MemoryError\<rparr>))"

text \<open>
  The two loops once more, with a count of the executions of the loop body
  \<open>result += sin(i) * cos(j)\<close> beside the accumulator.  The count is not a variable of the
  program; it makes the amount of computation done a part of the outcome.
\<close>

partial_function (option) inner_loop_passes ::
  "'d fpu \<Rightarrow> cint \<Rightarrow> cint \<Rightarrow> cint \<Rightarrow> 'd \<Rightarrow> nat \<Rightarrow> (error + 'd \<times> nat) option"
where
  "inner_loop_passes fp n i j result passes =
     (if sint j < sint n then
        (case incr j of
           Inl e \<Rightarrow> Some (Inl e)
         | Inr j' \<Rightarrow> inner_loop_passes fp n i j' (dadd fp result (summand fp i j)) (Suc passes))
      else Some (Inr (result, passes)))"

partial_function (option) outer_loop_passes ::
  "'d fpu \<Rightarrow> cint \<Rightarrow> cint \<Rightarrow> 'd \<Rightarrow> nat \<Rightarrow> (error + 'd \<times> nat) option"
where
  "outer_loop_passes fp n i result passes =
     (if sint i < sint n then
        (case inner_loop_passes fp n i 0 result passes of
           None \<Rightarrow> None
         | Some (Inl e) \<Rightarrow> Some (Inl e)
         | Some (Inr (result', passes')) \<Rightarrow>
             (case incr i of
                Inl e \<Rightarrow> Some (Inl e)
              | Inr i' \<Rightarrow> outer_loop_passes fp n i' result' passes'))
      else Some (Inr (result, passes)))"

text \<open>
  The function, statement by statement.  The outcome holds what the caller gets back (a
  reference to a float object, or \<open>None\<close> for \<open>NULL\<close>), the number of executions of the
  loop body, and the interpreter state at the return.  A \<open>NULL\<close> return with the error
  indicator set is what the Python caller sees as a raised exception.  The function passes
  on whatever \<open>PyFloat_FromDouble\<close> returns.
\<close>

definition compute_intensive_call ::
  "'d fpu \<Rightarrow> 'self \<Rightarrow> pyobject list \<Rightarrow> 'd interp \<Rightarrow> (error + nat option \<times> nat \<times> 'd interp) option"
where
  "compute_intensive_call fp self args s =
     (case PyArg_ParseTuple_int args s of
        (None, s') \<Rightarrow> Some (Inr (None, 0, s'))
      | (Some n, s') \<Rightarrow>
          (case outer_loop_passes fp n 0 (dzero fp) 0 of
             None \<Rightarrow> None
           | Some (Inl e) \<Rightarrow> Some (Inl e)
           | Some (Inr (result, passes)) \<Rightarrow>
               (case PyFloat_FromDouble result s' of
                  (obj, s'') \<Rightarrow> Some (Inr (obj, passes, s'')))))"

section \<open>Properties\<close>

subsection \<open>The counters inside the loops\<close>

lemma sint_succ: "sint (i::cint) < INT_MAX \<Longrightarrow> sint (i + 1) = sint i + 1"
proof -
  assume a: "sint i < INT_MAX"
  have lo: "- (2 ^ 31) \<le> sint i" using sint_ge [of i] by simp
  have "sint (i + 1) = signed_take_bit 31 (sint i + 1)"
    by (simp add: sint_word_add)
  also have "\<dots> = sint i + 1"
    using a lo by (intro signed_take_bit_int_eq_self) (simp_all add: INT_MAX_def)
  finally show ?thesis .
qed

lemma below_INT_MAX: "sint (j::cint) < sint (n::cint) \<Longrightarrow> sint j < INT_MAX"
  using sint_lt [of n] by (simp add: INT_MAX_def)

lemma incr_in_loop: "sint (j::cint) < sint (n::cint) \<Longrightarrow> incr j = Inr (j + 1)"
  by (simp add: incr_def below_INT_MAX)

lemma sint_succ_in_loop: "sint (j::cint) < sint (n::cint) \<Longrightarrow> sint (j + 1) = sint j + 1"
  by (rule sint_succ) (rule below_INT_MAX)

lemma upt_sint_step:
  assumes "0 \<le> sint (j::cint)" "sint j < sint (n::cint)"
  shows "[nat (sint j)..<nat (sint n)] = nat (sint j) # [nat (sint (j + 1))..<nat (sint n)]"
proof -
  have "nat (sint j) < nat (sint n)" using assms by simp
  moreover have "Suc (nat (sint j)) = nat (sint (j + 1))"
    using assms sint_succ_in_loop [OF assms(2)] by simp
  ultimately show ?thesis using upt_conv_Cons [of "nat (sint j)" "nat (sint n)"] by simp
qed

subsection \<open>The loops as folds\<close>

lemma inner_loop_row:
  "0 \<le> sint i \<Longrightarrow> 0 \<le> sint j \<Longrightarrow> sint j \<le> sint n \<Longrightarrow>
   inner_loop fp n i j r = Some (Inr (row fp r (nat (sint i)) [nat (sint j)..<nat (sint n)]))"
proof (induction "nat (sint n - sint j)" arbitrary: j r)
  case 0
  then show ?case by (subst inner_loop.simps) (simp add: row_def)
next
  case (Suc m)
  then have lt: "sint j < sint n" by simp
  have s: "sint (j + 1) = sint j + 1" using lt by (rule sint_succ_in_loop)
  have m: "m = nat (sint n - sint (j + 1))" using Suc.hyps(2) s by simp
  have IH: "inner_loop fp n i (j + 1) r' =
      Some (Inr (row fp r' (nat (sint i)) [nat (sint (j + 1))..<nat (sint n)]))" for r'
    using Suc.hyps(1) [OF m] Suc.prems lt s by simp
  have up: "[nat (sint j)..<nat (sint n)] = nat (sint j) # [nat (sint (j + 1))..<nat (sint n)]"
    using Suc.prems(2) lt by (rule upt_sint_step)
  have "inner_loop fp n i j r = inner_loop fp n i (j + 1) (dadd fp r (summand fp i j))"
    by (subst inner_loop.simps) (simp add: lt incr_in_loop [OF lt])
  also have "\<dots> = Some (Inr (row fp r (nat (sint i)) [nat (sint j)..<nat (sint n)]))"
    using Suc.prems by (simp add: IH up row_def summand_def)
  finally show ?case .
qed

lemma outer_loop_rows:
  "0 \<le> sint i \<Longrightarrow> sint i \<le> sint n \<Longrightarrow>
   outer_loop fp n i r =
     Some (Inr (foldl (\<lambda>a k. row fp a k [0..<nat (sint n)]) r [nat (sint i)..<nat (sint n)]))"
proof (induction "nat (sint n - sint i)" arbitrary: i r)
  case 0
  then show ?case by (subst outer_loop.simps) simp
next
  case (Suc m)
  then have lt: "sint i < sint n" by simp
  have s: "sint (i + 1) = sint i + 1" using lt by (rule sint_succ_in_loop)
  have m: "m = nat (sint n - sint (i + 1))" using Suc.hyps(2) s by simp
  have IH: "outer_loop fp n (i + 1) r' =
      Some (Inr (foldl (\<lambda>a k. row fp a k [0..<nat (sint n)]) r' [nat (sint (i + 1))..<nat (sint n)]))" for r'
    using Suc.hyps(1) [OF m] Suc.prems lt s by simp
  have up: "[nat (sint i)..<nat (sint n)] = nat (sint i) # [nat (sint (i + 1))..<nat (sint n)]"
    using Suc.prems(1) lt by (rule upt_sint_step)
  have inner: "inner_loop fp n i 0 r = Some (Inr (row fp r (nat (sint i)) [0..<nat (sint n)]))"
    using inner_loop_row [of i 0 n fp r] Suc.prems lt by simp
  have "outer_loop fp n i r = outer_loop fp n (i + 1) (row fp r (nat (sint i)) [0..<nat (sint n)])"
    by (subst outer_loop.simps) (simp add: lt incr_in_loop [OF lt] inner)
  also have "\<dots> = Some (Inr (foldl (\<lambda>a k. row fp a k [0..<nat (sint n)]) r [nat (sint i)..<nat (sint n)]))"
    by (simp add: IH up)
  finally show ?case .
qed

lemma foldl_product:
  "foldl f a (List.product xs ys) = foldl (\<lambda>a x. foldl (\<lambda>b y. f b (x, y)) a ys) a xs"
  by (induction xs arbitrary: a) (simp_all add: foldl_map)

lemma rows_nested_sum_spec:
  "foldl (\<lambda>a k. row fp a k [0..<n]) (dzero fp) [0..<n] = nested_sum_spec fp n"
  by (simp add: nested_sum_spec_def foldl_product row_def)

lemma outer_loop_nonneg:
  "0 \<le> sint n \<Longrightarrow> outer_loop fp n 0 (dzero fp) = Some (Inr (nested_sum_spec fp (nat (sint n))))"
  using outer_loop_rows [of 0 n fp "dzero fp"] by (simp add: rows_nested_sum_spec)

lemma outer_loop_nonpos:
  "sint n \<le> 0 \<Longrightarrow> outer_loop fp n 0 r = Some (Inr r)"
  by (subst outer_loop.simps) simp

lemma outer_loop_total:
  "outer_loop fp n 0 (dzero fp) = Some (Inr (nested_sum_spec fp (nat (sint n))))"
proof (cases "0 \<le> sint n")
  case True
  then show ?thesis by (rule outer_loop_nonneg)
next
  case False
  then show ?thesis by (simp add: outer_loop_nonpos nested_sum_spec_def)
qed

subsection \<open>The counter values\<close>

lemma i_value_range: "i_value n i \<Longrightarrow> 0 \<le> sint i \<and> sint i \<le> max 0 (sint n)"
proof (induction rule: i_value.induct)
  case i_init
  show ?case by simp
next
  case (i_incr i i')
  have "i' = i + 1" using i_incr.hyps(2,3) by (simp add: incr_in_loop)
  then show ?case using i_incr sint_succ_in_loop [of i n] by simp
qed

lemma j_value_range: "j_value n j \<Longrightarrow> 0 \<le> sint j \<and> sint j \<le> sint n"
proof (induction rule: j_value.induct)
  case (j_init i)
  then show ?case using i_value_range [of n i] by simp
next
  case (j_incr j j')
  have "j' = j + 1" using j_incr.hyps(2,3) by (simp add: incr_in_loop)
  then show ?case using j_incr sint_succ_in_loop [of j n] by simp
qed

lemma i_value_reached: "0 \<le> sint i \<Longrightarrow> sint i \<le> sint n \<Longrightarrow> i_value n i"
proof (induction "nat (sint i)" arbitrary: i)
  case 0
  then have "sint i = 0" by simp
  then have "i = 0" by (simp add: signed_eq_0_iff)
  then show ?case by (simp add: i_init)
next
  case (Suc m)
  define p where "p = i - 1"
  have i: "i = p + 1" by (simp add: p_def)
  have pos: "0 < sint i" using Suc.hyps(2) by simp
  have sp: "sint p = sint i - 1"
  proof -
    have "sint p = signed_take_bit 31 (sint i - 1)" by (simp add: p_def sint_word_ariths)
    also have "\<dots> = sint i - 1"
      using pos sint_lt [of i] by (intro signed_take_bit_int_eq_self) simp_all
    finally show ?thesis .
  qed
  have "i_value n p" using Suc sp by (intro Suc.hyps(1)) simp_all
  moreover have lt: "sint p < sint n" using sp Suc.prems by simp
  ultimately show ?case using i_incr [of n p i] incr_in_loop [OF lt] i by simp
qed

lemma j_value_reached: "0 < sint n \<Longrightarrow> 0 \<le> sint j \<Longrightarrow> sint j \<le> sint n \<Longrightarrow> j_value n j"
proof (induction "nat (sint j)" arbitrary: j)
  case 0
  then have "sint j = 0" by simp
  then have "j = 0" by (simp add: signed_eq_0_iff)
  then show ?case using j_init [of n 0] i_init [of n] 0 by simp
next
  case (Suc m)
  define p where "p = j - 1"
  have j: "j = p + 1" by (simp add: p_def)
  have pos: "0 < sint j" using Suc.hyps(2) by simp
  have sp: "sint p = sint j - 1"
  proof -
    have "sint p = signed_take_bit 31 (sint j - 1)" by (simp add: p_def sint_word_ariths)
    also have "\<dots> = sint j - 1"
      using pos sint_lt [of j] by (intro signed_take_bit_int_eq_self) simp_all
    finally show ?thesis .
  qed
  have "j_value n p" using Suc sp by (intro Suc.hyps(1)) simp_all
  moreover have lt: "sint p < sint n" using sp Suc.prems by simp
  ultimately show ?case using j_incr [of n p j] incr_in_loop [OF lt] j by simp
qed

lemma body_runs_iff:
  "body_runs n i j = (0 \<le> sint i \<and> sint i < sint n \<and> 0 \<le> sint j \<and> sint j < sint n)"
  unfolding body_runs_def
  using i_value_range [of n i] j_value_range [of n j] i_value_reached [of i n] j_value_reached [of n j]
  by auto

subsection \<open>Bounds on the sines and cosines of 1, 2 and 3\<close>

lemma sin_poly_sum: "(\<Sum>m<2 * k. sin_coeff m * x ^ m) = sin_poly k x"
proof (induction k)
  case 0
  show ?case by simp
next
  case (Suc k)
  have "(\<Sum>m<2 * Suc k. sin_coeff m * x ^ m) =
      (\<Sum>m<2 * k. sin_coeff m * x ^ m) + sin_coeff (2 * k) * x ^ (2 * k) + sin_coeff (Suc (2 * k)) * x ^ Suc (2 * k)"
    by simp
  also have "sin_coeff (2 * k) = 0" by (simp add: sin_coeff_def)
  also have "sin_coeff (Suc (2 * k)) = (- 1) ^ k / fact (2 * k + 1)" by (simp add: sin_coeff_def)
  finally show ?case by (simp add: Suc.IH)
qed

lemma sin_poly_bound: "\<bar>sin x - sin_poly k x\<bar> \<le> inverse (fact (2 * k)) * \<bar>x\<bar> ^ (2 * k)"
  using Maclaurin_sin_bound [of x "2 * k"] unfolding sin_poly_sum .


lemma sin_half_tight:
  "289794956100635576036503 / 604462909807314587353088 \<le> sin (1 / 2 :: real)" "sin (1 / 2 :: real) \<le> 36224369512579447004563 / 75557863725914323419136"
proof -
  have v: "sin_poly 10 (1 / 2) = 4368050630132021793329 / 9111009486163673088000" by (simp add: numeral_eq_Suc)
  have b: "inverse (fact (2 * 10)) * \<bar>1 / 2 :: real\<bar> ^ (2 * 10) = 1 / 2551082656125828464640000"
    by (simp add: fact_numeral power_divide)
  have "\<bar>sin (1 / 2 :: real) - (4368050630132021793329 / 9111009486163673088000)\<bar> \<le> 1 / 2551082656125828464640000"
    using sin_poly_bound [of "1 / 2" 10] unfolding v b .
  then show "289794956100635576036503 / 604462909807314587353088 \<le> sin (1 / 2 :: real)" and "sin (1 / 2 :: real) \<le> 36224369512579447004563 / 75557863725914323419136"
    by linarith+
qed

lemma sin_one_tight:
  "1017275999990815458902757 / 1208925819614629174706176 \<le> sin (1 :: real)" "sin (1 :: real) \<le> 1017275999990815458904909 / 1208925819614629174706176"
proof -
  have v: "sin_poly 11 1 = 42991545423991633141 / 51090942171709440000" by (simp add: numeral_eq_Suc)
  have b: "inverse (fact (2 * 11)) * \<bar>1 :: real\<bar> ^ (2 * 11) = 1 / 1124000727777607680000"
    by (simp add: fact_numeral)
  have "\<bar>sin (1 :: real) - (42991545423991633141 / 51090942171709440000)\<bar> \<le> 1 / 1124000727777607680000"
    using sin_poly_bound [of 1 11] unfolding v b .
  then show "1017275999990815458902757 / 1208925819614629174706176 \<le> sin (1 :: real)" and "sin (1 :: real) \<le> 1017275999990815458904909 / 1208925819614629174706176"
    by linarith+
qed

lemma cos_one_tight:
  "163296351990328718553233 / 302231454903657293676544 \<le> cos (1 :: real)" "cos (1 :: real) \<le> 653185407961314874212937 / 1208925819614629174706176"
proof -
  have c: "cos (1::real) = 1 - 2 * (sin (1 / 2))\<^sup>2" using cos_double_sin [of "1 / 2 :: real"] by simp
  have lo: "(289794956100635576036503 / 604462909807314587353088 :: real)\<^sup>2 \<le> (sin (1 / 2))\<^sup>2"
    using sin_half_tight(1) by (intro power_mono) simp_all
  have hi: "(sin (1 / 2 :: real))\<^sup>2 \<le> (36224369512579447004563 / 75557863725914323419136)\<^sup>2"
    using sin_half_tight by (intro power_mono) simp_all
  show "163296351990328718553233 / 302231454903657293676544 \<le> cos (1 :: real)" using hi by (simp add: c power2_eq_square)
  show "cos (1 :: real) \<le> 653185407961314874212937 / 1208925819614629174706176" using lo by (simp add: c power2_eq_square)
qed

lemma sin_two_tight:
  "137409142124838817606393 / 151115727451828646838272 \<le> sin (2 :: real)" "sin (2 :: real) \<le> 549636568499355270426739 / 604462909807314587353088"
proof -
  have d: "sin (2::real) = 2 * sin 1 * cos 1" using sin_double [of "1::real"] by simp
  have "2 * (1017275999990815458902757 / 1208925819614629174706176) * (163296351990328718553233 / 302231454903657293676544) \<le> 2 * sin (1::real) * cos 1"
    using sin_one_tight cos_one_tight by (intro mult_mono) simp_all
  then show "137409142124838817606393 / 151115727451828646838272 \<le> sin (2 :: real)" unfolding d by simp
  have "2 * sin (1::real) * cos 1 \<le> 2 * (1017275999990815458904909 / 1208925819614629174706176) * (653185407961314874212937 / 1208925819614629174706176)"
    using sin_one_tight cos_one_tight by (intro mult_mono) simp_all
  then show "sin (2 :: real) \<le> 549636568499355270426739 / 604462909807314587353088" unfolding d by simp
qed

lemma cos_two_tight:
  "- (125772663863197307253553 / 302231454903657293676544) \<le> cos (2 :: real)" "cos (2 :: real) \<le> - (62886331931598653626775 / 151115727451828646838272)"
proof -
  have d: "cos (2::real) = 2 * (cos 1)\<^sup>2 - 1" using cos_double_cos [of "1::real"] by simp
  have lo: "(163296351990328718553233 / 302231454903657293676544 :: real)\<^sup>2 \<le> (cos 1)\<^sup>2"
    using cos_one_tight(1) by (intro power_mono) simp_all
  have hi: "(cos (1::real))\<^sup>2 \<le> (653185407961314874212937 / 1208925819614629174706176)\<^sup>2"
    using cos_one_tight by (intro power_mono) simp_all
  show "- (125772663863197307253553 / 302231454903657293676544) \<le> cos (2 :: real)" using lo by (simp add: d power2_eq_square)
  show "cos (2 :: real) \<le> - (62886331931598653626775 / 151115727451828646838272)" using hi by (simp add: d power2_eq_square)
qed

lemma sin_three_tight:
  "170603621407798056596685 / 1208925819614629174706176 \<le> sin (3 :: real)" "sin (3 :: real) \<le> 170603621407798056598857 / 1208925819614629174706176"
proof -
  have d: "sin (3::real) = sin 2 * cos 1 - (- cos 2) * sin 1" using sin_add [of "2::real" 1] by simp
  have a: "(137409142124838817606393 / 151115727451828646838272) * (163296351990328718553233 / 302231454903657293676544) \<le> sin (2::real) * cos 1"
    using sin_two_tight cos_one_tight by (intro mult_mono) simp_all
  have a': "sin (2::real) * cos 1 \<le> (549636568499355270426739 / 604462909807314587353088) * (653185407961314874212937 / 1208925819614629174706176)"
    using sin_two_tight cos_one_tight by (intro mult_mono) simp_all
  have b: "(62886331931598653626775 / 151115727451828646838272) * (1017275999990815458902757 / 1208925819614629174706176) \<le> (- cos (2::real)) * sin 1"
    using cos_two_tight sin_one_tight by (intro mult_mono) simp_all
  have b': "(- cos (2::real)) * sin 1 \<le> (125772663863197307253553 / 302231454903657293676544) * (1017275999990815458904909 / 1208925819614629174706176)"
    using cos_two_tight sin_one_tight by (intro mult_mono) simp_all
  show "170603621407798056596685 / 1208925819614629174706176 \<le> sin (3 :: real)" using a b' unfolding d by simp
  show "sin (3 :: real) \<le> 170603621407798056598857 / 1208925819614629174706176" using a' b unfolding d by simp
qed

lemma cos_three_tight:
  "- (1196827490365026511349755 / 1208925819614629174706176) \<le> cos (3 :: real)" "cos (3 :: real) \<le> - (1196827490365026511345825 / 1208925819614629174706176)"
proof -
  have d: "cos (3::real) = - ((- cos 2) * cos 1 + sin 2 * sin 1)" using cos_add [of "2::real" 1] by simp
  have a: "(62886331931598653626775 / 151115727451828646838272) * (163296351990328718553233 / 302231454903657293676544) \<le> (- cos (2::real)) * cos 1"
    using cos_two_tight cos_one_tight by (intro mult_mono) simp_all
  have a': "(- cos (2::real)) * cos 1 \<le> (125772663863197307253553 / 302231454903657293676544) * (653185407961314874212937 / 1208925819614629174706176)"
    using cos_two_tight cos_one_tight by (intro mult_mono) simp_all
  have b: "(137409142124838817606393 / 151115727451828646838272) * (1017275999990815458902757 / 1208925819614629174706176) \<le> sin (2::real) * sin 1"
    using sin_two_tight sin_one_tight by (intro mult_mono) simp_all
  have b': "sin (2::real) * sin 1 \<le> (549636568499355270426739 / 604462909807314587353088) * (1017275999990815458904909 / 1208925819614629174706176)"
    using sin_two_tight sin_one_tight by (intro mult_mono) simp_all
  show "- (1196827490365026511349755 / 1208925819614629174706176) \<le> cos (3 :: real)" using a' b' unfolding d by simp
  show "cos (3 :: real) \<le> - (1196827490365026511345825 / 1208925819614629174706176)" using a b unfolding d by simp
qed

lemma sin_one_bounds: "84 / 100 \<le> sin (1::real)" "sin (1::real) \<le> 85 / 100"
  using sin_one_tight by simp_all

lemma cos_one_bounds: "539 / 1000 \<le> cos (1::real)" "cos (1::real) \<le> 542 / 1000"
  using cos_one_tight by simp_all

lemma sin_two_bounds: "90 / 100 \<le> sin (2::real)" "sin (2::real) \<le> 93 / 100"
  using sin_two_tight by simp_all

lemma cos_two_bounds: "- (42 / 100) \<le> cos (2::real)" "cos (2::real) \<le> - (41 / 100)"
  using cos_two_tight by simp_all

lemma sin_three_bounds: "sin (3::real) \<le> 16 / 100" "0 \<le> sin (3::real)"
  using sin_three_tight by simp_all

lemma cos_three_bounds: "cos (3::real) \<le> - (97 / 100)"
  using cos_three_tight by simp_all

lemma exact_sum_two: "1 / 2 + 20 * eps < sin (1::real) * (1 + cos 1)"
proof -
  have "(84 / 100) * (1 + 539 / 1000) \<le> sin (1::real) * (1 + cos 1)"
    using sin_one_bounds cos_one_bounds by (intro mult_mono) simp_all
  then show ?thesis by (simp add: eps_def)
qed

lemma exact_sum_four:
  "(sin (1::real) + sin 2 + sin 3) * (1 + cos 1 + cos 2 + cos 3) \<le> 1 / 2 - 80 * eps"
proof -
  have s: "sin (1::real) + sin 2 + sin 3 \<le> 194 / 100" "0 \<le> sin (1::real) + sin 2 + sin 3"
    using sin_one_bounds sin_two_bounds sin_three_bounds by linarith+
  have c: "1 + cos (1::real) + cos 2 + cos 3 \<le> 162 / 1000"
    using cos_one_bounds cos_two_bounds cos_three_bounds by linarith
  show ?thesis
  proof (cases "0 \<le> 1 + cos (1::real) + cos 2 + cos 3")
    case True
    have "(sin (1::real) + sin 2 + sin 3) * (1 + cos 1 + cos 2 + cos 3) \<le> (194 / 100) * (162 / 1000)"
      using s c True by (intro mult_mono) simp_all
    then show ?thesis by (simp add: eps_def)
  next
    case False
    then have "(sin (1::real) + sin 2 + sin 3) * (1 + cos 1 + cos 2 + cos 3) \<le> 0"
      using s(2) by (simp add: mult_nonneg_nonpos)
    then show ?thesis by (simp add: eps_def)
  qed
qed

subsection \<open>The loop states and the value returned\<close>

lemma test_counters:
  "at_outer_test fp n i r \<Longrightarrow> 0 \<le> sint i \<and> sint i \<le> max 0 (sint n)"
  "at_inner_test fp n i j r \<Longrightarrow> 0 \<le> sint i \<and> sint i < sint n \<and> 0 \<le> sint j \<and> sint j \<le> sint n"
proof (induction rule: at_outer_test_at_inner_test.inducts)
  case outer_init
  show ?case by simp
next
  case (inner_init i result)
  then show ?case by simp
next
  case (inner_next i j result j')
  have lt: "sint j < sint n" and inc: "incr j = Inr j'" using inner_next by simp_all
  have "j' = j + 1" using lt inc by (simp add: incr_in_loop)
  then show ?case using inner_next sint_succ_in_loop [OF lt] by simp
next
  case (outer_next i j result i')
  have lt: "sint i < sint n" and inc: "incr i = Inr i'" using outer_next by simp_all
  have "i' = i + 1" using inc lt by (simp add: incr_in_loop)
  then show ?case using outer_next sint_succ_in_loop [OF lt] by simp
qed

lemma inner_loop_exit:
  "at_inner_test fp n i j r \<Longrightarrow>
   \<exists>j' r'. inner_loop fp n i j r = Some (Inr r') \<and> at_inner_test fp n i j' r' \<and> \<not> sint j' < sint n"
proof (induction "nat (sint n - sint j)" arbitrary: j r)
  case 0
  then have ex: "\<not> sint j < sint n" by simp
  have "inner_loop fp n i j r = Some (Inr r)" by (subst inner_loop.simps) (simp add: ex)
  then show ?case using "0.prems" ex by blast
next
  case (Suc m)
  then have lt: "sint j < sint n" by simp
  have s: "sint (j + 1) = sint j + 1" using lt by (rule sint_succ_in_loop)
  have m: "m = nat (sint n - sint (j + 1))" using Suc.hyps(2) s by simp
  have nx: "at_inner_test fp n i (j + 1) (dadd fp r (summand fp i j))"
    using Suc.prems lt incr_in_loop [OF lt] by (rule inner_next)
  have un: "inner_loop fp n i j r = inner_loop fp n i (j + 1) (dadd fp r (summand fp i j))"
    by (subst inner_loop.simps) (simp add: lt incr_in_loop [OF lt])
  show ?case unfolding un using Suc.hyps(1) [OF m nx] .
qed

lemma outer_loop_exit:
  "at_outer_test fp n i r \<Longrightarrow>
   \<exists>i' r'. outer_loop fp n i r = Some (Inr r') \<and> at_outer_test fp n i' r' \<and> \<not> sint i' < sint n"
proof (induction "nat (sint n - sint i)" arbitrary: i r)
  case 0
  then have ex: "\<not> sint i < sint n" by simp
  have "outer_loop fp n i r = Some (Inr r)" by (subst outer_loop.simps) (simp add: ex)
  then show ?case using "0.prems" ex by blast
next
  case (Suc m)
  then have lt: "sint i < sint n" by simp
  have s: "sint (i + 1) = sint i + 1" using lt by (rule sint_succ_in_loop)
  have m: "m = nat (sint n - sint (i + 1))" using Suc.hyps(2) s by simp
  have "at_inner_test fp n i 0 r" using Suc.prems lt by (rule inner_init)
  then obtain j' r' where inner: "inner_loop fp n i 0 r = Some (Inr r')"
    and at: "at_inner_test fp n i j' r'" and ex: "\<not> sint j' < sint n"
    using inner_loop_exit [of fp n i 0 r] by blast
  have nx: "at_outer_test fp n (i + 1) r'"
    using at ex incr_in_loop [OF lt] by (rule outer_next)
  have un: "outer_loop fp n i r = outer_loop fp n (i + 1) r'"
    by (subst outer_loop.simps) (simp add: lt incr_in_loop [OF lt] inner)
  show ?case unfolding un using Suc.hyps(1) [OF m nx] .
qed

subsection \<open>Rounding to nearest\<close>

lemma round_even_le: "q \<le> of_int M \<Longrightarrow> round_even q \<le> M"
  unfolding round_even_def by (auto simp: floor_le_iff)

lemma round_even_ge: "of_int M \<le> q \<Longrightarrow> M \<le> round_even q"
  unfolding round_even_def by (auto simp: le_floor_iff) linarith+

lemma round_even_of_int [simp]: "round_even (of_int M) = M"
  by (simp add: round_even_def)

lemma round_even_error: "\<bar>of_int (round_even q) - q\<bar> \<le> 1 / 2"
  unfolding round_even_def by auto

lemma ulp_exponent_le:
  assumes "x \<noteq> 0" "\<bar>x\<bar> < 2 ^ 53"
  shows "ulp_exponent x \<le> 0"
proof -
  have "log 2 \<bar>x\<bar> < 53" using assms by (subst log_less_iff) simp_all
  then have "\<lfloor>log 2 \<bar>x\<bar>\<rfloor> < 53" by (simp add: floor_less_iff)
  then show ?thesis by (simp add: ulp_exponent_def)
qed

lemma ulp_exponent_binade:
  assumes "2 ^ 53 \<le> \<bar>x\<bar>" "\<bar>x\<bar> < 2 ^ 54"
  shows "ulp_exponent x = 1"
proof -
  have "\<lfloor>log 2 \<bar>x\<bar>\<rfloor> = 53"
    using assms by (subst floor_log_eq_powr_iff) simp_all
  then show ?thesis by (simp add: ulp_exponent_def)
qed

lemma round_real_bounded:
  assumes K: "0 \<le> K" "K \<le> 2 ^ 53" and x: "\<bar>x\<bar> \<le> of_int K"
  shows "\<bar>round_real x\<bar> \<le> of_int K"
proof (cases "x = 0")
  case True
  then show ?thesis using K by (simp add: round_real_def)
next
  case nz: False
  show ?thesis
  proof (cases "\<bar>x\<bar> < 2 ^ 53")
    case True
    define d where "d = nat (- ulp_exponent x)"
    have e: "ulp_exponent x = - int d" using ulp_exponent_le [OF nz True] by (simp add: d_def)
    have p: "(2::real) powi ulp_exponent x = 1 / 2 ^ d"
      unfolding e by (simp add: power_int_minus_divide)
    have q: "x / 2 powi ulp_exponent x = x * 2 ^ d" by (simp add: p)
    have up: "x * 2 ^ d \<le> of_int (K * 2 ^ d)" using x by (simp add: mult_right_mono) 
    have lo: "of_int (- (K * 2 ^ d)) \<le> x * 2 ^ d"
    proof -
      have "- of_int K \<le> x" using x by linarith
      then have "- of_int K * 2 ^ d \<le> x * 2 ^ d" by (intro mult_right_mono) simp_all
      then show ?thesis by simp
    qed
    have r1: "round_even (x * 2 ^ d) \<le> K * 2 ^ d" using up by (rule round_even_le)
    have r2: "- (K * 2 ^ d) \<le> round_even (x * 2 ^ d)" using lo by (rule round_even_ge)
    have "\<bar>real_of_int (round_even (x * 2 ^ d))\<bar> \<le> of_int K * 2 ^ d"
      using r1 r2 by (metis (mono_tags, opaque_lifting) abs_le_iff minus_le_iff of_int_le_iff of_int_minus of_int_mult of_int_numeral of_int_power)
    then have "\<bar>real_of_int (round_even (x * 2 ^ d))\<bar> / 2 ^ d \<le> of_int K"
      by (simp add: divide_le_eq)
    then show ?thesis using nz by (simp add: round_real_def q p abs_mult)
  next
    case False
    have kr: "real_of_int K \<le> 2 ^ 53"
      using K(2) by (metis of_int_le_iff of_int_numeral of_int_power)
    have eq: "\<bar>x\<bar> = 2 ^ 53" using False x kr by linarith
    have "real_of_int K = 2 ^ 53" using False x kr by linarith
    then have K53: "K = 2 ^ 53" by (metis of_int_eq_iff of_int_numeral of_int_power)
    have e: "ulp_exponent x = 1" using eq by (intro ulp_exponent_binade) simp_all
    have "x = 2 ^ 53 \<or> x = - (2 ^ 53)" using eq by linarith
    then have "x / 2 = of_int (2 ^ 52) \<or> x / 2 = of_int (- (2 ^ 52))" by auto
    then have "round_even (x / 2) = 2 ^ 52 \<or> round_even (x / 2) = - (2 ^ 52)"
      by (metis round_even_of_int)
    then show ?thesis using nz K53 by (auto simp: round_real_def e)
  qed
qed

lemma round_even_above_2_52:
  assumes "2 ^ 52 < q" "q \<le> 2 ^ 52 + 1 / 2"
  shows "round_even q = 2 ^ 52"
proof -
  have f: "\<lfloor>q\<rfloor> = 2 ^ 52" using assms by (intro floor_unique) simp_all
  have ev: "even (2 ^ 52 :: int)" by simp
  show ?thesis using assms ev unfolding round_even_def f by auto
qed

lemma round_even_below_minus_2_52:
  assumes "q < - (2 ^ 52)" "- (2 ^ 52) - 1 / 2 \<le> q"
  shows "round_even q = - (2 ^ 52)"
proof -
  have f: "\<lfloor>q\<rfloor> = - (2 ^ 52) - 1" using assms by (intro floor_unique) simp_all
  have od: "odd (- (2 ^ 52) - 1 :: int)" by simp
  show ?thesis using assms od unfolding round_even_def f by auto
qed

lemma round_real_sticks:
  assumes "2 ^ 53 < \<bar>x\<bar>" "\<bar>x\<bar> \<le> 2 ^ 53 + 1"
  shows "\<bar>round_real x\<bar> = 2 ^ 53"
proof -
  have nz: "x \<noteq> 0" using assms by auto
  have e: "ulp_exponent x = 1" using assms by (intro ulp_exponent_binade) simp_all
  have r: "round_real x = of_int (round_even (x / 2)) * 2" using nz by (simp add: round_real_def e)
  show ?thesis
  proof (cases "0 < x")
    case True
    then have "round_even (x / 2) = 2 ^ 52" using assms by (intro round_even_above_2_52) simp_all
    then show ?thesis by (simp add: r)
  next
    case False
    then have "round_even (x / 2) = - (2 ^ 52)"
      using assms nz by (intro round_even_below_minus_2_52) simp_all
    then show ?thesis by (simp add: r)
  qed
qed

lemma round_real_add_small:
  assumes "\<bar>a\<bar> \<le> 2 ^ 53" "\<bar>b\<bar> \<le> 1"
  shows "\<bar>round_real (a + b)\<bar> \<le> 2 ^ 53"
proof (cases "\<bar>a + b\<bar> \<le> 2 ^ 53")
  case True
  then show ?thesis using round_real_bounded [of "2 ^ 53" "a + b"] by simp
next
  case False
  then have "2 ^ 53 < \<bar>a + b\<bar>" "\<bar>a + b\<bar> \<le> 2 ^ 53 + 1" using assms by linarith+
  then show ?thesis using round_real_sticks [of "a + b"] by simp
qed

lemma round_real_add_step:
  assumes "\<bar>a\<bar> \<le> min (real k) (2 ^ 53)" "\<bar>b\<bar> \<le> 1"
  shows "\<bar>round_real (a + b)\<bar> \<le> min (real (Suc k)) (2 ^ 53)"
proof (cases "Suc k \<le> 2 ^ 53")
  case True
  then have le: "real (Suc k) \<le> 2 ^ 53"
    by (metis of_nat_le_iff of_nat_numeral of_nat_power)
  have "\<bar>a\<bar> \<le> real k" using assms(1) by simp
  then have "\<bar>a + b\<bar> \<le> real k + 1" using assms(2) by linarith
  then have ab: "\<bar>a + b\<bar> \<le> of_int (int (Suc k))" by simp
  have "int (Suc k) \<le> 2 ^ 53" using True by (metis of_nat_le_iff of_nat_numeral of_nat_power)
  then have "\<bar>round_real (a + b)\<bar> \<le> of_int (int (Suc k))"
    using ab by (intro round_real_bounded) simp_all
  then show ?thesis using le by simp
next
  case False
  then have "2 ^ 53 < Suc k" by simp
  then have big: "(2::real) ^ 53 \<le> real (Suc k)"
    by (metis less_imp_le of_nat_le_iff of_nat_numeral of_nat_power)
  have "\<bar>a\<bar> \<le> 2 ^ 53" using assms(1) by simp
  then have "\<bar>round_real (a + b)\<bar> \<le> 2 ^ 53" using assms(2) by (rule round_real_add_small)
  then show ?thesis using big by simp
qed

lemma round_real_mul_unit:
  assumes "\<bar>a\<bar> \<le> 1" "\<bar>b\<bar> \<le> 1"
  shows "\<bar>round_real (a * b)\<bar> \<le> 1"
proof -
  have "\<bar>a * b\<bar> \<le> 1 * 1" unfolding abs_mult using assms by (intro mult_mono) simp_all
  then show ?thesis using round_real_bounded [of 1 "a * b"] by simp
qed

lemma ieee_round_finite:
  "\<bar>round_real x\<bar> \<le> 2 ^ 53 \<Longrightarrow> ieee_round x = Finite (round_real x)"
proof -
  assume "\<bar>round_real x\<bar> \<le> 2 ^ 53"
  moreover have "(2::real) ^ 53 < 2 ^ 1024" by (rule power_strict_increasing) simp_all
  ultimately show ?thesis unfolding ieee_round_def by (simp only: if_True order_le_less_trans)
qed

lemma round_real_of_int:
  assumes "\<bar>K\<bar> \<le> 2 ^ 53"
  shows "round_real (of_int K) = of_int K"
proof (cases "K = 0")
  case True
  then show ?thesis by (simp add: round_real_def)
next
  case nz: False
  define x where "x = real_of_int K"
  have xnz: "x \<noteq> 0" using nz by (simp add: x_def)
  have xb: "\<bar>x\<bar> \<le> 2 ^ 53"
    unfolding x_def using assms by (metis of_int_abs of_int_le_iff of_int_numeral of_int_power)
  show ?thesis
  proof (cases "\<bar>x\<bar> < 2 ^ 53")
    case True
    define d where "d = nat (- ulp_exponent x)"
    have e: "ulp_exponent x = - int d" using ulp_exponent_le [OF xnz True] by (simp add: d_def)
    have p: "(2::real) powi ulp_exponent x = 1 / 2 ^ d"
      unfolding e by (simp add: power_int_minus_divide)
    have "x / 2 powi ulp_exponent x = of_int (K * 2 ^ d)" unfolding p by (simp add: x_def)
    then have "round_even (x / 2 powi ulp_exponent x) = K * 2 ^ d" by (simp only: round_even_of_int)
    then have "round_real x = of_int (K * 2 ^ d) * (1 / 2 ^ d)"
      using xnz by (simp only: round_real_def if_False p)
    then have "round_real x = x" by (simp add: x_def)
    then show ?thesis by (simp add: x_def)
  next
    case False
    then have eq: "\<bar>x\<bar> = 2 ^ 53" using xb by linarith
    have e: "ulp_exponent x = 1" using eq by (intro ulp_exponent_binade) simp_all
    have "even K"
    proof -
      have "\<bar>real_of_int K\<bar> = 2 ^ 53" using eq by (simp add: x_def)
      then have "\<bar>K\<bar> = 2 ^ 53" by (metis of_int_abs of_int_eq_iff of_int_numeral of_int_power)
      then have "K = 2 ^ 53 \<or> K = - (2 ^ 53)" by linarith
      then show ?thesis by auto
    qed
    then obtain h where h: "K = 2 * h" by (auto elim: evenE)
    have "x / 2 = of_int h" by (simp add: x_def h)
    then have "round_even (x / 2) = h" by simp
    then have "round_even (x / 2 powi ulp_exponent x) = h" by (simp add: e)
    then have "round_real x = of_int h * 2 powi 1"
      using xnz by (simp only: round_real_def if_False e)
    then have "round_real x = x" by (simp add: x_def h)
    then show ?thesis by (simp add: x_def)
  qed
qed

lemma round_real_0 [simp]: "round_real 0 = 0"
  by (simp add: round_real_def)

lemma round_real_1 [simp]: "round_real 1 = 1"
  using round_real_of_int [of 1] by simp

lemma ieee_round_0 [simp]: "ieee_round 0 = Finite 0"
  by (simp add: ieee_round_def)

lemma ieee_round_1 [simp]: "ieee_round 1 = Finite 1"
  by (simp add: ieee_round_def)

lemma ulp_exponent_eval:
  assumes "2 powi k \<le> \<bar>x\<bar>" "\<bar>x\<bar> < 2 powi (k + 1)" "- 1022 \<le> k"
  shows "ulp_exponent x = k - 52"
proof -
  have pos: "0 < \<bar>x\<bar>" using assms(1) zero_less_power_int [of "2::real" k] by linarith
  have p1: "(2::real) powr (real_of_int k) = 2 powi k" by (rule powr_real_of_int') simp_all
  have p2: "(2::real) powr (real_of_int (k + 1)) = 2 powi (k + 1)"
    by (rule powr_real_of_int') simp_all
  have b: "2 powr (real_of_int k) \<le> \<bar>x\<bar> \<and> \<bar>x\<bar> < 2 powr (real_of_int (k + 1))"
    unfolding p1 p2 using assms(1,2) by simp
  have "\<lfloor>log 2 \<bar>x\<bar>\<rfloor> = k"
    using floor_log_eq_powr_iff [of "\<bar>x\<bar>" 2 k, THEN iffD2, OF pos _ b] by simp
  then show ?thesis using assms(3) by (simp add: ulp_exponent_def)
qed

lemma round_real_eval:
  assumes "2 powi k \<le> \<bar>x\<bar>" "\<bar>x\<bar> < 2 powi (k + 1)" "- 1022 \<le> k"
    and "round_even (x / 2 powi (k - 52)) = m"
  shows "round_real x = of_int m * 2 powi (k - 52)"
proof -
  have "0 < \<bar>x\<bar>" using assms(1) zero_less_power_int [of "2::real" k] by linarith
  then have "x \<noteq> 0" by simp
  then show ?thesis
    by (simp add: round_real_def ulp_exponent_eval [OF assms(1-3)] assms(4))
qed

lemma round_even_near: "\<bar>q - of_int m\<bar> < 1 / 2 \<Longrightarrow> round_even q = m"
proof -
  assume a: "\<bar>q - of_int m\<bar> < 1 / 2"
  show ?thesis
  proof (cases "of_int m \<le> q")
    case True
    then have "\<lfloor>q\<rfloor> = m" using a by (intro floor_unique) linarith+
    then show ?thesis using a True by (simp add: round_even_def)
  next
    case False
    then have f: "\<lfloor>q\<rfloor> = m - 1" using a by (intro floor_unique) (simp; linarith)+
    show ?thesis using a False unfolding round_even_def f by auto
  qed
qed

lemma round_real_near:
  assumes "2 powi k \<le> \<bar>x\<bar>" "\<bar>x\<bar> < 2 powi (k + 1)" "- 1022 \<le> k"
    and "\<bar>x - of_int m * 2 powi (k - 52)\<bar> < 2 powi (k - 53)"
  shows "round_real x = of_int m * 2 powi (k - 52)"
proof -
  have pos: "0 < (2::real) powi (k - 52)" by simp
  have h: "(2::real) powi (k - 53) = 2 powi (k - 52) / 2"
    using power_int_diff [of "2::real" "k - 52" 1] by (simp add: algebra_simps)
  have "x / 2 powi (k - 52) - of_int m = (x - of_int m * 2 powi (k - 52)) / 2 powi (k - 52)"
    by (simp add: field_simps)
  then have "\<bar>x / 2 powi (k - 52) - of_int m\<bar> = \<bar>x - of_int m * 2 powi (k - 52)\<bar> / 2 powi (k - 52)"
    using pos by (simp add: abs_divide)
  also have "\<dots> < (2 powi (k - 52) / 2) / 2 powi (k - 52)"
    using assms(4) pos unfolding h by (intro divide_strict_right_mono) simp_all
  also have "\<dots> = 1 / 2" by simp
  finally have "round_even (x / 2 powi (k - 52)) = m" by (rule round_even_near)
  then show ?thesis using assms(1-3) by (intro round_real_eval)
qed

subsection \<open>The accumulator under IEEE arithmetic\<close>

lemma dfinite_eq: "dfinite x = (x = Finite (dval x))"
  by (cases x) simp_all

lemma ieee_round_small:
  assumes "\<bar>round_real x\<bar> \<le> 2 ^ 53"
  shows "dfinite (ieee_round x)" "dval (ieee_round x) = round_real x"
  using ieee_round_finite [OF assms] by simp_all

lemma ieee_of_int_finite:
  assumes "- (2 ^ 31) \<le> z" "z < 2 ^ 31"
  shows "dfinite (ieee_round (of_int z))"
proof -
  have "\<bar>real_of_int z\<bar> \<le> of_int (2 ^ 31)" using assms by simp
  then have "\<bar>round_real (of_int z)\<bar> \<le> of_int (2 ^ 31)"
    by (intro round_real_bounded) simp_all
  then have "\<bar>round_real (of_int z)\<bar> \<le> 2 ^ 53" by simp
  then show ?thesis by (rule ieee_round_small)
qed

lemma ieee_of_cint_finite: "dfinite (dof_int (ieee_fpu libm_sin libm_cos) (sint (k::cint)))"
proof -
  have "- (2 ^ 31) \<le> sint k" "sint k < 2 ^ 31" using sint_ge [of k] sint_lt [of k] by simp_all
  then have "dfinite (ieee_round (of_int (sint k)))" by (rule ieee_of_int_finite)
  then show ?thesis by (simp only: ieee_fpu_def fpu.select_convs)
qed

lemma ieee_mul_unit:
  assumes "dfinite x" "\<bar>dval x\<bar> \<le> 1" "dfinite y" "\<bar>dval y\<bar> \<le> 1"
  shows "dfinite (ieee_mul x y) \<and> \<bar>dval (ieee_mul x y)\<bar> \<le> 1"
proof -
  obtain a b where x: "x = Finite a" and y: "y = Finite b"
    using assms(1,3) dfinite_eq by blast
  have r: "\<bar>round_real (a * b)\<bar> \<le> 1" using assms(2,4) by (simp add: x y round_real_mul_unit)
  then have "\<bar>round_real (a * b)\<bar> \<le> 2 ^ 53" by simp
  then show ?thesis using r ieee_round_small [of "a * b"] by (simp add: x y)
qed

lemma ieee_add_step:
  assumes "dfinite x" "\<bar>dval x\<bar> \<le> min (real k) (2 ^ 53)" "dfinite y" "\<bar>dval y\<bar> \<le> 1"
  shows "dfinite (ieee_add x y) \<and> \<bar>dval (ieee_add x y)\<bar> \<le> min (real (Suc k)) (2 ^ 53)"
proof -
  obtain a b where x: "x = Finite a" and y: "y = Finite b"
    using assms(1,3) dfinite_eq by blast
  have r: "\<bar>round_real (a + b)\<bar> \<le> min (real (Suc k)) (2 ^ 53)"
    using assms(2,4) round_real_add_step [of a k b] by (simp add: x y)
  then have "\<bar>round_real (a + b)\<bar> \<le> 2 ^ 53" by simp
  then show ?thesis using r ieee_round_small [of "a + b"] by (simp add: x y)
qed

lemma ieee_summand:
  assumes "\<And>x. dfinite x \<Longrightarrow> dfinite (libm_sin x) \<and> \<bar>dval (libm_sin x)\<bar> \<le> 1"
    and "\<And>x. dfinite x \<Longrightarrow> dfinite (libm_cos x) \<and> \<bar>dval (libm_cos x)\<bar> \<le> 1"
  shows "dfinite (summand (ieee_fpu libm_sin libm_cos) i j) \<and>
         \<bar>dval (summand (ieee_fpu libm_sin libm_cos) i j)\<bar> \<le> 1"
proof -
  let ?F = "ieee_fpu libm_sin libm_cos"
  have s: "dfinite (dsin ?F (dof_int ?F (sint i))) \<and> \<bar>dval (dsin ?F (dof_int ?F (sint i)))\<bar> \<le> 1"
    using assms(1) [OF ieee_of_cint_finite [of libm_sin libm_cos i]]
    by (simp only: ieee_fpu_def fpu.select_convs)
  have c: "dfinite (dcos ?F (dof_int ?F (sint j))) \<and> \<bar>dval (dcos ?F (dof_int ?F (sint j)))\<bar> \<le> 1"
    using assms(2) [OF ieee_of_cint_finite [of libm_sin libm_cos j]]
    by (simp only: ieee_fpu_def fpu.select_convs)
  have m: "dmul ?F = ieee_mul" by (simp add: ieee_fpu_def)
  show ?thesis unfolding summand_def m using s c by (intro ieee_mul_unit) simp_all
qed

lemma ieee_accumulator:
  assumes sn: "\<And>x. dfinite x \<Longrightarrow> dfinite (libm_sin x) \<and> \<bar>dval (libm_sin x)\<bar> \<le> 1"
    and cs: "\<And>x. dfinite x \<Longrightarrow> dfinite (libm_cos x) \<and> \<bar>dval (libm_cos x)\<bar> \<le> 1"
  shows "at_outer_test (ieee_fpu libm_sin libm_cos) n i r \<Longrightarrow>
           dfinite r \<and> \<bar>dval r\<bar> \<le> min (real (nat (sint i) * nat (sint n))) (2 ^ 53)"
    and "at_inner_test (ieee_fpu libm_sin libm_cos) n i j r \<Longrightarrow>
           dfinite r \<and> \<bar>dval r\<bar> \<le> min (real (nat (sint i) * nat (sint n) + nat (sint j))) (2 ^ 53)"
proof (induction rule: at_outer_test_at_inner_test.inducts)
  case outer_init
  show ?case by (simp add: ieee_fpu_def)
next
  case (inner_init i result)
  then show ?case by simp
next
  case (inner_next i j result j')
  have at: "at_inner_test (ieee_fpu libm_sin libm_cos) n i j result"
    and lt: "sint j < sint n" and inc: "incr j = Inr j'" using inner_next by simp_all
  have j0: "0 \<le> sint j" using test_counters(2) [OF at] by simp
  have j': "j' = j + 1" using lt inc by (simp add: incr_in_loop)
  have k: "Suc (nat (sint i) * nat (sint n) + nat (sint j)) = nat (sint i) * nat (sint n) + nat (sint j')"
    using j0 sint_succ_in_loop [OF lt] by (simp add: j' nat_add_distrib)
  have "dfinite (ieee_add result (summand (ieee_fpu libm_sin libm_cos) i j)) \<and>
      \<bar>dval (ieee_add result (summand (ieee_fpu libm_sin libm_cos) i j))\<bar>
        \<le> min (real (Suc (nat (sint i) * nat (sint n) + nat (sint j)))) (2 ^ 53)"
    using inner_next.IH ieee_summand [of libm_sin libm_cos i j, OF sn cs] by (intro ieee_add_step) simp_all
  then show ?case unfolding k by (simp add: ieee_fpu_def)
next
  case (outer_next i j result i')
  have at: "at_inner_test (ieee_fpu libm_sin libm_cos) n i j result"
    and ex: "\<not> sint j < sint n" and inc: "incr i = Inr i'" using outer_next by simp_all
  have c: "0 \<le> sint i" "sint i < sint n" "sint j \<le> sint n" using test_counters(2) [OF at] by simp_all
  have jn: "sint j = sint n" using ex c by simp
  have i': "i' = i + 1" using inc c by (simp add: incr_in_loop)
  have k: "nat (sint i) * nat (sint n) + nat (sint j) = nat (sint i') * nat (sint n)"
    using c sint_succ_in_loop [OF c(2)] by (simp add: i' jn nat_add_distrib)
  show ?case using outer_next.IH unfolding k by simp
qed

lemma count_bound:
  assumes "0 \<le> i" "i < n" "0 \<le> j" "j \<le> (n::int)"
  shows "real (nat i * nat n + nat j) \<le> (real_of_int n)\<^sup>2"
proof -
  have "i * n + j \<le> (n - 1) * n + n" using assms by (intro add_mono mult_right_mono) simp_all
  also have "\<dots> = n * n" by (simp add: algebra_simps)
  finally have le: "i * n + j \<le> n * n" .
  have "int (nat i * nat n + nat j) = i * n + j" using assms by simp
  then have "real (nat i * nat n + nat j) = real_of_int (i * n + j)"
    by (metis of_int_of_nat_eq)
  also have "\<dots> \<le> real_of_int (n * n)" using le by (rule of_int_le_iff [THEN iffD2])
  finally show ?thesis by (simp add: power2_eq_square)
qed

lemma cr_unit_range: "unit_range cr_sin" "unit_range cr_cos"
proof -
  have "dfinite (ieee_round t) \<and> \<bar>dval (ieee_round t)\<bar> \<le> 1" if "\<bar>t\<bar> \<le> 1" for t :: real
  proof -
    have r: "\<bar>round_real t\<bar> \<le> 1" using that round_real_bounded [of 1 t] by simp
    then have "\<bar>round_real t\<bar> \<le> 2 ^ 53" by simp
    then show ?thesis using r ieee_round_small [of t] by simp
  qed
  then have s: "dfinite (ieee_round (sin a)) \<and> \<bar>dval (ieee_round (sin a))\<bar> \<le> 1"
    and c: "dfinite (ieee_round (cos a)) \<and> \<bar>dval (ieee_round (cos a))\<bar> \<le> 1" for a :: real
    by simp_all
  show "unit_range cr_sin" unfolding unit_range_def
  proof (intro allI impI)
    fix x assume "dfinite x"
    then obtain a where "x = Finite a" using dfinite_eq by blast
    then show "dfinite (cr_sin x) \<and> \<bar>dval (cr_sin x)\<bar> \<le> 1" using s by simp
  qed
  show "unit_range cr_cos" unfolding unit_range_def
  proof (intro allI impI)
    fix x assume "dfinite x"
    then obtain a where "x = Finite a" using dfinite_eq by blast
    then show "dfinite (cr_cos x) \<and> \<bar>dval (cr_cos x)\<bar> \<le> 1" using c by simp
  qed
qed

subsection \<open>Rounding errors of the accumulation\<close>

lemma accurate_fpuD:
  assumes "accurate_fpu fp num"
  shows "num (dzero fp) = Some 0"
    and "0 \<le> k \<Longrightarrow> k \<le> 3 \<Longrightarrow> num (dof_int fp k) = Some (of_int k)"
    and "num x = Some a \<Longrightarrow> \<bar>a\<bar> \<le> 4 \<Longrightarrow> \<exists>s. num (dsin fp x) = Some s \<and> \<bar>s - sin a\<bar> \<le> eps"
    and "num x = Some a \<Longrightarrow> \<bar>a\<bar> \<le> 4 \<Longrightarrow> \<exists>c. num (dcos fp x) = Some c \<and> \<bar>c - cos a\<bar> \<le> eps"
    and "num x = Some a \<Longrightarrow> num y = Some b \<Longrightarrow> \<bar>a\<bar> \<le> 2 \<Longrightarrow> \<bar>b\<bar> \<le> 2 \<Longrightarrow>
           \<exists>p. num (dmul fp x y) = Some p \<and> \<bar>p - a * b\<bar> \<le> eps"
    and "num x = Some a \<Longrightarrow> num y = Some b \<Longrightarrow> \<bar>a\<bar> \<le> 32 \<Longrightarrow> \<bar>b\<bar> \<le> 2 \<Longrightarrow>
           \<exists>s. num (dadd fp x y) = Some s \<and> \<bar>s - (a + b)\<bar> \<le> eps"
  using assms unfolding accurate_fpu_def by blast+

lemma product_error:
  fixes s c s' c' :: real
  assumes "\<bar>s' - s\<bar> \<le> e" "\<bar>c' - c\<bar> \<le> e" "\<bar>s\<bar> \<le> 1" "\<bar>c\<bar> \<le> 1" "0 \<le> e" "e \<le> 1"
  shows "\<bar>s' * c' - s * c\<bar> \<le> 3 * e"
proof -
  have "s' * c' - s * c = s' * (c' - c) + c * (s' - s)" by (simp add: algebra_simps)
  then have "\<bar>s' * c' - s * c\<bar> \<le> \<bar>s'\<bar> * \<bar>c' - c\<bar> + \<bar>c\<bar> * \<bar>s' - s\<bar>"
    by (metis abs_mult abs_triangle_ineq)
  also have "\<dots> \<le> 2 * e + 1 * e"
  proof (intro add_mono mult_mono)
    show "\<bar>s'\<bar> \<le> 2" using assms by linarith
  qed (use assms in simp_all)
  finally show ?thesis by simp
qed

lemma summand_accuracy:
  assumes acc: "accurate_fpu fp num" and i: "i \<le> 3" and j: "j \<le> 3"
  shows "\<exists>t. num (dmul fp (dsin fp (dof_int fp (int i))) (dcos fp (dof_int fp (int j)))) = Some t \<and>
             \<bar>t - sin (real i) * cos (real j)\<bar> \<le> 4 * eps"
proof -
  have vi: "num (dof_int fp (int i)) = Some (real i)" using accurate_fpuD(2) [OF acc, of "int i"] i by simp
  have vj: "num (dof_int fp (int j)) = Some (real j)" using accurate_fpuD(2) [OF acc, of "int j"] j by simp
  obtain s where s: "num (dsin fp (dof_int fp (int i))) = Some s" and es: "\<bar>s - sin (real i)\<bar> \<le> eps"
    using accurate_fpuD(3) [OF acc vi] i by auto
  obtain c where c: "num (dcos fp (dof_int fp (int j))) = Some c" and ec: "\<bar>c - cos (real j)\<bar> \<le> eps"
    using accurate_fpuD(4) [OF acc vj] j by auto
  have e1: "eps \<le> 1" by (simp add: eps_def)
  have bs: "\<bar>s\<bar> \<le> 2" using es e1 abs_sin_le_one [of "real i"] by linarith
  have bc: "\<bar>c\<bar> \<le> 2" using ec e1 abs_cos_le_one [of "real j"] by linarith
  obtain t where t: "num (dmul fp (dsin fp (dof_int fp (int i))) (dcos fp (dof_int fp (int j)))) = Some t"
    and m: "\<bar>t - s * c\<bar> \<le> eps"
    using accurate_fpuD(5) [OF acc s c bs bc] by auto
  have p: "\<bar>s * c - sin (real i) * cos (real j)\<bar> \<le> 3 * eps"
    using es ec by (intro product_error) (simp_all add: eps_def)
  have "\<bar>t - sin (real i) * cos (real j)\<bar> \<le> 4 * eps" using m p by linarith
  then show ?thesis using t by blast
qed

lemma foldl_accuracy:
  assumes acc: "accurate_fpu fp num"
    and terms: "\<forall>p\<in>set ps. \<exists>v. num (t p) = Some v \<and> \<bar>v - \<tau> p\<bar> \<le> 4 * eps \<and> \<bar>\<tau> p\<bar> \<le> 1"
    and start: "num a = Some v0" "\<bar>v0 - A\<bar> \<le> E"
    and room: "\<bar>A\<bar> + E + real (length ps) * (1 + 5 * eps) \<le> 32"
  shows "\<exists>v. num (foldl (\<lambda>a p. dadd fp a (t p)) a ps) = Some v \<and>
             \<bar>v - (A + sum_list (map \<tau> ps))\<bar> \<le> E + real (length ps) * (5 * eps)"
  using terms start room
proof (induction ps arbitrary: a v0 A E)
  case Nil
  then show ?case by simp
next
  case (Cons p ps)
  obtain v where v: "num (t p) = Some v" and tp: "\<bar>v - \<tau> p\<bar> \<le> 4 * eps" and tb: "\<bar>\<tau> p\<bar> \<le> 1"
    using Cons.prems(1) by auto
  have e0: "0 \<le> eps" and e1: "4 * eps \<le> 1" by (simp_all add: eps_def)
  define L where "L = real (length ps) * (1 + 5 * eps)"
  have len: "0 \<le> L" using e0 by (simp add: L_def)
  have room: "\<bar>A\<bar> + E + (1 + 5 * eps) + L \<le> 32"
    using Cons.prems(4) by (simp add: L_def algebra_simps)
  have va: "\<bar>v0\<bar> \<le> 32" using Cons.prems(3) room e0 len by linarith
  have vt: "\<bar>v\<bar> \<le> 2" using tp tb e1 by linarith
  obtain w where w: "num (dadd fp a (t p)) = Some w" and ad: "\<bar>w - (v0 + v)\<bar> \<le> eps"
    using accurate_fpuD(6) [OF acc Cons.prems(2) v va vt] by auto
  have st: "\<bar>w - (A + \<tau> p)\<bar> \<le> E + 5 * eps"
    using ad tp Cons.prems(3) by linarith
  have rm: "\<bar>A + \<tau> p\<bar> + (E + 5 * eps) + real (length ps) * (1 + 5 * eps) \<le> 32"
    using room tb unfolding L_def by linarith
  have rest: "\<forall>p\<in>set ps. \<exists>v. num (t p) = Some v \<and> \<bar>v - \<tau> p\<bar> \<le> 4 * eps \<and> \<bar>\<tau> p\<bar> \<le> 1"
    using Cons.prems(1) by simp
  obtain u where "num (foldl (\<lambda>a p. dadd fp a (t p)) (dadd fp a (t p)) ps) = Some u"
    and "\<bar>u - (A + \<tau> p + sum_list (map \<tau> ps))\<bar> \<le> (E + 5 * eps) + real (length ps) * (5 * eps)"
    using Cons.IH [OF rest w st rm] by auto
  then show ?case by (simp add: algebra_simps)
qed

lemma nested_sum_spec_accuracy:
  assumes acc: "accurate_fpu fp num" and n: "n \<le> 4"
  shows "\<exists>v. num (nested_sum_spec fp n) = Some v \<and>
           \<bar>v - sum_list (map (\<lambda>(i, j). sin (real i) * cos (real j)) (List.product [0..<n] [0..<n]))\<bar>
             \<le> real (n * n) * (5 * eps)"
proof -
  define t where "t = (\<lambda>(i, j). dmul fp (dsin fp (dof_int fp (int i))) (dcos fp (dof_int fp (int j))))"
  define \<tau> where "\<tau> = (\<lambda>(i::nat, j::nat). sin (real i) * cos (real j))"
  define ps where "ps = List.product [0..<n] [0..<n]"
  have spec: "nested_sum_spec fp n = foldl (\<lambda>a p. dadd fp a (t p)) (dzero fp) ps"
    by (simp add: nested_sum_spec_def t_def ps_def case_prod_unfold)
  have len: "length ps = n * n" by (simp add: ps_def)
  have terms: "\<forall>p\<in>set ps. \<exists>v. num (t p) = Some v \<and> \<bar>v - \<tau> p\<bar> \<le> 4 * eps \<and> \<bar>\<tau> p\<bar> \<le> 1"
  proof
    fix p assume mem: "p \<in> set ps"
    obtain i j where p: "p = (i, j)" by (cases p)
    have "i < n \<and> j < n" using mem by (simp add: ps_def p)
    then have i: "i \<le> 3" and j: "j \<le> 3" using n by simp_all
    have "\<bar>sin (real i) * cos (real j)\<bar> \<le> 1 * 1"
      unfolding abs_mult by (intro mult_mono) simp_all
    then show "\<exists>v. num (t p) = Some v \<and> \<bar>v - \<tau> p\<bar> \<le> 4 * eps \<and> \<bar>\<tau> p\<bar> \<le> 1"
      using summand_accuracy [OF acc i j] by (simp add: p t_def \<tau>_def)
  qed
  have start: "num (dzero fp) = Some 0" "\<bar>0 - (0::real)\<bar> \<le> 0"
    using accurate_fpuD(1) [OF acc] by simp_all
  have "n * n \<le> 4 * 4" using n by (intro mult_mono) simp_all
  then have "real (n * n) \<le> real (4 * 4)" by (rule of_nat_mono)
  then have "real (n * n) \<le> 16" by simp
  then have "real (n * n) * (1 + 5 * eps) \<le> 16 * (1 + 5 * eps)"
    by (intro mult_right_mono) (simp_all add: eps_def)
  then have room: "\<bar>0\<bar> + 0 + real (length ps) * (1 + 5 * eps) \<le> 32" by (simp add: len eps_def)
  show ?thesis
    using foldl_accuracy [OF acc terms start room] by (simp add: spec len \<tau>_def ps_def)
qed

subsection \<open>IEEE arithmetic is accurate\<close>

lemma round_real_error:
  assumes "\<bar>x\<bar> \<le> 64"
  shows "\<bar>round_real x - x\<bar> \<le> eps"
proof (cases "x = 0")
  case True
  then show ?thesis by (simp add: eps_def)
next
  case nz: False
  define e where "e = ulp_exponent x"
  define q where "q = x / 2 powi e"
  have "log 2 \<bar>x\<bar> \<le> 6" using assms nz by (subst log_le_iff) simp_all
  then have "\<lfloor>log 2 \<bar>x\<bar>\<rfloor> \<le> 6" by (simp add: floor_le_iff) 
  then have e: "e \<le> - 46" by (simp add: e_def ulp_exponent_def)
  have p: "(2::real) powi e \<le> 2 powi (- 46)" using e by (intro power_int_increasing) simp_all
  have pos: "0 < (2::real) powi e" by simp
  have x: "x = q * 2 powi e" by (simp add: q_def)
  have "round_real x - x = (of_int (round_even q) - q) * 2 powi e"
    using nz by (simp add: round_real_def e_def [symmetric] q_def [symmetric] x [symmetric] algebra_simps)
  then have "\<bar>round_real x - x\<bar> = \<bar>of_int (round_even q) - q\<bar> * 2 powi e"
    using pos by (simp add: abs_mult)
  also have "\<dots> \<le> (1 / 2) * 2 powi (- 46)"
    using round_even_error [of q] p pos by (intro mult_mono) simp_all
  also have "\<dots> \<le> eps" by (simp add: eps_def power_int_minus_divide)
  finally show ?thesis .
qed

lemma ieee_round_accurate:
  assumes "\<bar>x\<bar> \<le> 64"
  shows "\<exists>r. dnum (ieee_round x) = Some r \<and> \<bar>r - x\<bar> \<le> eps"
proof -
  have "\<bar>round_real x\<bar> \<le> of_int 64" using assms by (intro round_real_bounded) simp_all
  then have "\<bar>round_real x\<bar> \<le> 2 ^ 53" by simp
  then have "ieee_round x = Finite (round_real x)" by (rule ieee_round_finite)
  then show ?thesis using round_real_error [OF assms] by simp
qed

lemma ieee_accurate: "accurate_fpu (ieee_fpu cr_sin cr_cos) dnum"
proof -
  have conv: "dnum (ieee_round (of_int k)) = Some (of_int k)" if "0 \<le> k" "k \<le> 3" for k :: int
  proof -
    have "\<bar>k\<bar> \<le> 2 ^ 53" using that by simp
    then have r: "round_real (of_int k) = of_int k" by (rule round_real_of_int)
    have "\<bar>real_of_int k\<bar> \<le> 2 ^ 53" using that by simp
    then show ?thesis using ieee_round_finite [of "of_int k"] by (simp add: r)
  qed
  have sn: "\<exists>s. dnum (cr_sin x) = Some s \<and> \<bar>s - sin a\<bar> \<le> eps" if "dnum x = Some a" for x a
  proof -
    have x: "x = Finite a" using that by (cases x) simp_all
    have "\<bar>sin a\<bar> \<le> 64" using abs_sin_le_one [of a] by linarith
    then show ?thesis using ieee_round_accurate [of "sin a"] by (simp add: x)
  qed
  have cs: "\<exists>c. dnum (cr_cos x) = Some c \<and> \<bar>c - cos a\<bar> \<le> eps" if "dnum x = Some a" for x a
  proof -
    have x: "x = Finite a" using that by (cases x) simp_all
    have "\<bar>cos a\<bar> \<le> 64" using abs_cos_le_one [of a] by linarith
    then show ?thesis using ieee_round_accurate [of "cos a"] by (simp add: x)
  qed
  have ml: "\<exists>p. dnum (ieee_mul x y) = Some p \<and> \<bar>p - a * b\<bar> \<le> eps"
    if "dnum x = Some a" "dnum y = Some b" "\<bar>a\<bar> \<le> 2" "\<bar>b\<bar> \<le> 2" for x y a b
  proof -
    have x: "x = Finite a" and y: "y = Finite b" using that by (cases x; cases y; simp)+
    have "\<bar>a * b\<bar> \<le> 2 * 2" unfolding abs_mult using that by (intro mult_mono) simp_all
    then have "\<bar>a * b\<bar> \<le> 64" by simp
    then show ?thesis using ieee_round_accurate [of "a * b"] by (simp add: x y)
  qed
  have ad: "\<exists>s. dnum (ieee_add x y) = Some s \<and> \<bar>s - (a + b)\<bar> \<le> eps"
    if "dnum x = Some a" "dnum y = Some b" "\<bar>a\<bar> \<le> 32" "\<bar>b\<bar> \<le> 2" for x y a b
  proof -
    have x: "x = Finite a" and y: "y = Finite b" using that by (cases x; cases y; simp)+
    have "\<bar>a + b\<bar> \<le> 64" using that by linarith
    then show ?thesis using ieee_round_accurate [of "a + b"] by (simp add: x y)
  qed
  show ?thesis
    unfolding accurate_fpu_def ieee_fpu_def fpu.select_convs
    using conv sn cs ml ad by (intro conjI allI impI) auto
qed

subsection \<open>The correctly rounded sines and cosines of 1, 2 and 3\<close>

lemma cr_cos_one: "ieee_round (cos (1::real)) = Finite (1216652631687587 / 2251799813685248)"
proof -
  have "round_real (cos (1::real)) = of_int 4866610526750348 * 2 powi ((- 1) - 52)"
    using cos_one_tight by (intro round_real_near) (simp_all add: power_int_minus_divide)
  then have r: "round_real (cos (1::real)) = 1216652631687587 / 2251799813685248" by (simp add: power_int_minus_divide)
  then have "\<bar>round_real (cos (1::real))\<bar> \<le> 2 ^ 53" by simp
  then show ?thesis using r ieee_round_finite [of "cos (1::real)"] by simp
qed

lemma cr_cos_two: "ieee_round (cos (2::real)) = Finite (- (7496634952020485 / 18014398509481984))"
proof -
  have "round_real (cos (2::real)) = of_int (- 7496634952020485) * 2 powi ((- 2) - 52)"
    using cos_two_tight by (intro round_real_near) (simp_all add: power_int_minus_divide)
  then have r: "round_real (cos (2::real)) = - (7496634952020485 / 18014398509481984)" by (simp add: power_int_minus_divide)
  then have "\<bar>round_real (cos (2::real))\<bar> \<le> 2 ^ 53" by simp
  then show ?thesis using r ieee_round_finite [of "cos (2::real)"] by simp
qed

lemma cr_cos_three: "ieee_round (cos (3::real)) = Finite (- (4458529838789353 / 4503599627370496))"
proof -
  have "round_real (cos (3::real)) = of_int (- 8917059677578706) * 2 powi ((- 1) - 52)"
    using cos_three_tight by (intro round_real_near) (simp_all add: power_int_minus_divide)
  then have r: "round_real (cos (3::real)) = - (4458529838789353 / 4503599627370496)" by (simp add: power_int_minus_divide)
  then have "\<bar>round_real (cos (3::real))\<bar> \<le> 2 ^ 53" by simp
  then show ?thesis using r ieee_round_finite [of "cos (3::real)"] by simp
qed

lemma cr_sin_one: "ieee_round (sin (1::real)) = Finite (3789648413623927 / 4503599627370496)"
proof -
  have "round_real (sin (1::real)) = of_int 7579296827247854 * 2 powi ((- 1) - 52)"
    using sin_one_tight by (intro round_real_near) (simp_all add: power_int_minus_divide)
  then have r: "round_real (sin (1::real)) = 3789648413623927 / 4503599627370496" by (simp add: power_int_minus_divide)
  then have "\<bar>round_real (sin (1::real))\<bar> \<le> 2 ^ 53" by simp
  then show ?thesis using r ieee_round_finite [of "sin (1::real)"] by simp
qed

lemma cr_sin_two: "ieee_round (sin (2::real)) = Finite (4095111552621091 / 4503599627370496)"
proof -
  have "round_real (sin (2::real)) = of_int 8190223105242182 * 2 powi ((- 1) - 52)"
    using sin_two_tight by (intro round_real_near) (simp_all add: power_int_minus_divide)
  then have r: "round_real (sin (2::real)) = 4095111552621091 / 4503599627370496" by (simp add: power_int_minus_divide)
  then have "\<bar>round_real (sin (2::real))\<bar> \<le> 2 ^ 53" by simp
  then show ?thesis using r ieee_round_finite [of "sin (2::real)"] by simp
qed

lemma cr_sin_three: "ieee_round (sin (3::real)) = Finite (5084384125703515 / 36028797018963968)"
proof -
  have "round_real (sin (3::real)) = of_int 5084384125703515 * 2 powi ((- 3) - 52)"
    using sin_three_tight by (intro round_real_near) (simp_all add: power_int_minus_divide)
  then have r: "round_real (sin (3::real)) = 5084384125703515 / 36028797018963968" by (simp add: power_int_minus_divide)
  then have "\<bar>round_real (sin (3::real))\<bar> \<le> 2 ^ 53" by simp
  then show ?thesis using r ieee_round_finite [of "sin (3::real)"] by simp
qed

subsection \<open>The nested and the factored sum for \<open>n = 4\<close>\<close>

lemma ieee_round_eval:
  assumes "2 powi k \<le> \<bar>x\<bar>" "\<bar>x\<bar> < 2 powi (k + 1)" "- 1022 \<le> k"
    and "round_even (x / 2 powi (k - 52)) = m"
    and "of_int m * 2 powi (k - 52) = y" and "\<bar>y\<bar> \<le> 2 ^ 53"
  shows "ieee_round x = Finite y"
proof -
  have "round_real x = y" using round_real_eval [OF assms(1-4)] assms(5) by simp
  then show ?thesis using assms(6) ieee_round_finite [of x] by simp
qed

lemmas cr_values =
  cr_sin_one cr_cos_one cr_sin_two cr_cos_two cr_sin_three cr_cos_three

lemma ieee_round_2 [simp]: "ieee_round 2 = Finite 2"
  using round_real_of_int [of 2] ieee_round_finite [of 2] by simp

lemma ieee_round_3 [simp]: "ieee_round 3 = Finite 3"
  using round_real_of_int [of 3] ieee_round_finite [of 3] by simp

lemma ieee_round_v0: "ieee_round (- (18258177050532129921009374044123 / 20282409603651670423947251286016)) = Finite (- (506766213729585 / 562949953421312))"
  by (rule ieee_round_eval [where k = "- 1" and m = "- 8108259419673360"])
    (simp_all add: round_even_def power_int_minus_divide)

lemma ieee_round_v1: "ieee_round (- (16896260530663014584473113649231 / 20282409603651670423947251286016)) = Finite (- (3751723494241469 / 4503599627370496))"
  by (rule ieee_round_eval [where k = "- 1" and m = "- 7503446988482938"])
    (simp_all add: round_even_def power_int_minus_divide)

lemma ieee_round_v2: "ieee_round (- (30699556397802146363128075049135 / 81129638414606681695789005144064)) = Finite (- (6816670871723695 / 18014398509481984))"
  by (rule ieee_round_eval [where k = "- 2" and m = "- 6816670871723695"])
    (simp_all add: round_even_def power_int_minus_divide)

lemma ieee_round_v3: "ieee_round (- (28409610753442115079449590144595 / 81129638414606681695789005144064)) = Finite (- (6308200795821975 / 18014398509481984))"
  by (rule ieee_round_eval [where k = "- 2" and m = "- 6308200795821975"])
    (simp_all add: round_even_def power_int_minus_divide)

lemma ieee_round_v4: "ieee_round (- (22668878336316038231757016675795 / 162259276829213363391578010288128)) = Finite (- (78648470848139 / 562949953421312))"
  by (rule ieee_round_eval [where k = "- 3" and m = "- 5033502134280896"])
    (simp_all add: round_even_def power_int_minus_divide)

lemma ieee_round_v5: "ieee_round (- (38115771746247085747071316504775 / 649037107316853453566312041152512)) = Finite (- (8463401478808105 / 144115188075855872))"
  by (rule ieee_round_eval [where k = "- 5" and m = "- 8463401478808105"])
    (simp_all add: round_even_def power_int_minus_divide)

lemma ieee_round_v6: "ieee_round (6185929327047772678538067768305 / 81129638414606681695789005144064) = Finite (2747104467036975 / 36028797018963968)"
  by (rule ieee_round_eval [where k = "- 4" and m = "5494208934073950"])
    (simp_all add: round_even_def power_int_minus_divide)

lemma ieee_round_v7: "ieee_round (254215248368755 / 2251799813685248) = Finite (254215248368755 / 2251799813685248)"
  by (rule ieee_round_eval [where k = "- 4" and m = "8134887947800160"])
    (simp_all add: round_even_def power_int_minus_divide)

lemma ieee_round_v8: "ieee_round (151054078487799 / 1125899906842624) = Finite (151054078487799 / 1125899906842624)"
  by (rule ieee_round_eval [where k = "- 3" and m = "4833730511609568"])
    (simp_all add: round_even_def power_int_minus_divide)

lemma ieee_round_v9: "ieee_round (5084384125703515 / 36028797018963968) = Finite (5084384125703515 / 36028797018963968)"
  by (rule ieee_round_eval [where k = "- 3" and m = "5084384125703515"])
    (simp_all add: round_even_def power_int_minus_divide)

lemma ieee_round_v10: "ieee_round (528921418129715 / 2251799813685248) = Finite (528921418129715 / 2251799813685248)"
  by (rule ieee_round_eval [where k = "- 3" and m = "8462742690075440"])
    (simp_all add: round_even_def power_int_minus_divide)

lemma ieee_round_v11: "ieee_round (4572439389416505 / 18014398509481984) = Finite (4572439389416505 / 18014398509481984)"
  by (rule ieee_round_eval [where k = "- 2" and m = "4572439389416505"])
    (simp_all add: round_even_def power_int_minus_divide)

lemma ieee_round_v12: "ieee_round (1287027270646897542689755466643 / 5070602400912917605986812821504) = Finite (4572439389416507 / 18014398509481984)"
  by (rule ieee_round_eval [where k = "- 2" and m = "4572439389416507"])
    (simp_all add: round_even_def power_int_minus_divide)

lemma ieee_round_v13: "ieee_round (13547126815778955 / 36028797018963968) = Finite (3386781703944739 / 9007199254740992)"
  by (rule ieee_round_eval [where k = "- 2" and m = "6773563407889478"])
    (simp_all add: round_even_def power_int_minus_divide)

lemma ieee_round_v14: "ieee_round (56713523652455623 / 144115188075855872) = Finite (7089190456556953 / 18014398509481984)"
  by (rule ieee_round_eval [where k = "- 2" and m = "7089190456556953"])
    (simp_all add: round_even_def power_int_minus_divide)

lemma ieee_round_v15: "ieee_round (16294231282815931 / 36028797018963968) = Finite (4073557820703983 / 9007199254740992)"
  by (rule ieee_round_eval [where k = "- 2" and m = "8147115641407966"])
    (simp_all add: round_even_def power_int_minus_divide)

lemma ieee_round_v16: "ieee_round (4610685715606240012880372094149 / 10141204801825835211973625643008) = Finite (8190223105242183 / 18014398509481984)"
  by (rule ieee_round_eval [where k = "- 2" and m = "8190223105242183"])
    (simp_all add: round_even_def power_int_minus_divide)

lemma ieee_round_v17: "ieee_round (4982328247550690778372499097417 / 10141204801825835211973625643008) = Finite (4425196429336867 / 9007199254740992)"
  by (rule ieee_round_eval [where k = "- 2" and m = "8850392858673734"])
    (simp_all add: round_even_def power_int_minus_divide)

lemma ieee_round_v18: "ieee_round (3789648413623927 / 4503599627370496) = Finite (3789648413623927 / 4503599627370496)"
  by (rule ieee_round_eval [where k = "- 1" and m = "7579296827247854"])
    (simp_all add: round_even_def power_int_minus_divide)

lemma ieee_round_v19: "ieee_round (4095111552621091 / 4503599627370496) = Finite (4095111552621091 / 4503599627370496)"
  by (rule ieee_round_eval [where k = "- 1" and m = "8190223105242182"])
    (simp_all add: round_even_def power_int_minus_divide)

lemma ieee_round_v20: "ieee_round (17040615963915917 / 18014398509481984) = Finite (4260153990978979 / 4503599627370496)"
  by (rule ieee_round_eval [where k = "- 1" and m = "8520307981957958"])
    (simp_all add: round_even_def power_int_minus_divide)

lemma ieee_round_v22: "ieee_round (4603542049358601 / 4503599627370496) = Finite (4603542049358601 / 4503599627370496)"
  by (rule ieee_round_eval [where k = "0" and m = "4603542049358601"])
    (simp_all add: round_even_def power_int_minus_divide)

lemma ieee_round_v23: "ieee_round (20250984610962195 / 18014398509481984) = Finite (5062746152740549 / 4503599627370496)"
  by (rule ieee_round_eval [where k = "0" and m = "5062746152740549"])
    (simp_all add: round_even_def power_int_minus_divide)

lemma ieee_round_v24: "ieee_round (20447890184384441 / 18014398509481984) = Finite (2555986273048055 / 2251799813685248)"
  by (rule ieee_round_eval [where k = "0" and m = "5111972546096110"])
    (simp_all add: round_even_def power_int_minus_divide)

lemma ieee_round_v25: "ieee_round (23348816759737891 / 18014398509481984) = Finite (5837204189934473 / 4503599627370496)"
  by (rule ieee_round_eval [where k = "0" and m = "5837204189934473"])
    (simp_all add: round_even_def power_int_minus_divide)

lemma ieee_round_v26: "ieee_round (13632280528054069 / 9007199254740992) = Finite (3408070132013517 / 2251799813685248)"
  by (rule ieee_round_eval [where k = "0" and m = "6816140264027034"])
    (simp_all add: round_even_def power_int_minus_divide)

lemma ieee_round_v27: "ieee_round (3468452445372835 / 2251799813685248) = Finite (3468452445372835 / 2251799813685248)"
  by (rule ieee_round_eval [where k = "0" and m = "6936904890745670"])
    (simp_all add: round_even_def power_int_minus_divide)

lemma ieee_round_v28: "ieee_round (3942379983122509 / 2251799813685248) = Finite (3942379983122509 / 2251799813685248)"
  by (rule ieee_round_eval [where k = "0" and m = "7884759966245018"])
    (simp_all add: round_even_def power_int_minus_divide)

lemma ieee_round_v29: "ieee_round (68162463855663659 / 36028797018963968) = Finite (8520307981957957 / 4503599627370496)"
  by (rule ieee_round_eval [where k = "0" and m = "8520307981957957"])
    (simp_all add: round_even_def power_int_minus_divide)

lemmas ieee_round_values =
  ieee_round_v0 ieee_round_v1 ieee_round_v2 ieee_round_v3 ieee_round_v4 ieee_round_v5
  ieee_round_v6 ieee_round_v7 ieee_round_v8 ieee_round_v9 ieee_round_v10 ieee_round_v11
  ieee_round_v12 ieee_round_v13 ieee_round_v14 ieee_round_v15 ieee_round_v16 ieee_round_v17
  ieee_round_v18 ieee_round_v19 ieee_round_v20 ieee_round_v22 ieee_round_v23 ieee_round_v24
  ieee_round_v25 ieee_round_v26 ieee_round_v27 ieee_round_v28 ieee_round_v29

lemma nested_sum_four:
  assumes "correct_upto_3 libm_sin libm_cos"
  shows "nested_sum_spec (ieee_fpu libm_sin libm_cos) 4 = Finite (4572439389416505 / 18014398509481984)"
proof -
  have u4: "[0..<4] = [0, 1, 2, 3]" by (simp add: upt_rec)
  show ?thesis
    using assms unfolding correct_upto_3_def nested_sum_spec_def u4 ieee_fpu_def
    by (simp add: cr_values ieee_round_values)
qed

lemma factored_four:
  assumes "correct_upto_3 libm_sin libm_cos"
  shows "factored_spec (ieee_fpu libm_sin libm_cos) 4 = Finite (4572439389416507 / 18014398509481984)"
proof -
  have u4: "[0..<4] = [0, 1, 2, 3]" by (simp add: upt_rec)
  show ?thesis
    using assms unfolding correct_upto_3_def factored_spec_def u4 ieee_fpu_def
    by (simp add: cr_values ieee_round_values)
qed

subsection \<open>The two sums in exact arithmetic\<close>

lemma foldl_add_sum_list: "foldl (\<lambda>a x. a + f x) a xs = a + sum_list (map f xs)" for a :: real
  by (induction xs arbitrary: a) simp_all

lemma factored_exact: "nested_sum_spec real_fpu n = factored_spec real_fpu n"
proof -
  have inner: "foldl (\<lambda>b j. b + sin (real i) * cos (real j)) a [0..<n]
      = a + sin (real i) * sum_list (map (\<lambda>j. cos (real j)) [0..<n])" for a i
    using foldl_add_sum_list [of "\<lambda>j. sin (real i) * cos (real j)" a "[0..<n]"]
    by (simp add: sum_list_const_mult)
  have "nested_sum_spec real_fpu n
      = foldl (\<lambda>a i. a + sin (real i) * sum_list (map (\<lambda>j. cos (real j)) [0..<n])) 0 [0..<n]"
    by (simp add: nested_sum_spec_def real_fpu_def foldl_product inner)
  also have "\<dots> = sum_list (map (\<lambda>i. sin (real i)) [0..<n]) * sum_list (map (\<lambda>j. cos (real j)) [0..<n])"
    using foldl_add_sum_list [of "\<lambda>i. sin (real i) * sum_list (map (\<lambda>j. cos (real j)) [0..<n])" 0 "[0..<n]"]
    by (simp add: sum_list_mult_const)
  also have "\<dots> = factored_spec real_fpu n"
    using foldl_add_sum_list [of "\<lambda>i. sin (real i)" 0 "[0..<n]"]
      foldl_add_sum_list [of "\<lambda>j. cos (real j)" 0 "[0..<n]"]
    by (simp add: factored_spec_def real_fpu_def)
  finally show ?thesis .
qed

subsection \<open>The call inside the host interpreter\<close>

text \<open>
  The counted loops compute what the loops compute; the count grows by one with every
  execution of the body.
\<close>

lemma inner_loop_passes_erase:
  "inner_loop_passes fp n i j r c =
     map_option (map_sum id (\<lambda>r'. (r', c + nat (sint n - sint j)))) (inner_loop fp n i j r)"
proof (induction "nat (sint n - sint j)" arbitrary: j r c)
  case 0
  then have ex: "\<not> sint j < sint n" by simp
  have a: "inner_loop_passes fp n i j r c = Some (Inr (r, c))"
    by (subst inner_loop_passes.simps) (simp add: ex)
  have b: "inner_loop fp n i j r = Some (Inr r)"
    by (subst inner_loop.simps) (simp add: ex)
  show ?case using ex by (simp add: a b)
next
  case (Suc m)
  then have lt: "sint j < sint n" by simp
  have s: "sint (j + 1) = sint j + 1" using lt by (rule sint_succ_in_loop)
  have m: "m = nat (sint n - sint (j + 1))" using Suc.hyps(2) s by simp
  have a: "inner_loop_passes fp n i j r c
      = inner_loop_passes fp n i (j + 1) (dadd fp r (summand fp i j)) (Suc c)"
    by (subst inner_loop_passes.simps) (simp add: lt incr_in_loop [OF lt])
  have b: "inner_loop fp n i j r = inner_loop fp n i (j + 1) (dadd fp r (summand fp i j))"
    by (subst inner_loop.simps) (simp add: lt incr_in_loop [OF lt])
  have k: "Suc c + nat (sint n - sint (j + 1)) = c + nat (sint n - sint j)"
    using lt s by simp
  show ?case unfolding a b Suc.hyps(1) [OF m] k ..
qed

lemma outer_loop_passes_erase:
  "outer_loop_passes fp n i r c =
     map_option (map_sum id (\<lambda>r'. (r', c + nat (sint n - sint i) * nat (sint n)))) (outer_loop fp n i r)"
proof (induction "nat (sint n - sint i)" arbitrary: i r c)
  case 0
  then have ex: "\<not> sint i < sint n" by simp
  have a: "outer_loop_passes fp n i r c = Some (Inr (r, c))"
    by (subst outer_loop_passes.simps) (simp add: ex)
  have b: "outer_loop fp n i r = Some (Inr r)"
    by (subst outer_loop.simps) (simp add: ex)
  show ?case using ex by (simp add: a b)
next
  case (Suc m)
  then have lt: "sint i < sint n" by simp
  have s: "sint (i + 1) = sint i + 1" using lt by (rule sint_succ_in_loop)
  have m: "m = nat (sint n - sint (i + 1))" using Suc.hyps(2) s by simp
  have k: "c + nat (sint n) + nat (sint n - sint (i + 1)) * nat (sint n)
      = c + nat (sint n - sint i) * nat (sint n)"
  proof -
    have "nat (sint n - sint i) = Suc (nat (sint n - sint (i + 1)))" using lt s by simp
    then show ?thesis by simp
  qed
  show ?case
  proof (cases "inner_loop fp n i 0 r")
    case None
    have a: "outer_loop_passes fp n i r c = None"
      by (subst outer_loop_passes.simps) (simp add: lt inner_loop_passes_erase None)
    have b: "outer_loop fp n i r = None"
      by (subst outer_loop.simps) (simp add: lt None)
    show ?thesis by (simp add: a b)
  next
    case (Some x)
    show ?thesis
    proof (cases x)
      case (Inl e)
      have a: "outer_loop_passes fp n i r c = Some (Inl e)"
        by (subst outer_loop_passes.simps) (simp add: lt inner_loop_passes_erase Some Inl)
      have b: "outer_loop fp n i r = Some (Inl e)"
        by (subst outer_loop.simps) (simp add: lt Some Inl)
      show ?thesis by (simp add: a b)
    next
      case (Inr r')
      have a: "outer_loop_passes fp n i r c = outer_loop_passes fp n (i + 1) r' (c + nat (sint n))"
        by (subst outer_loop_passes.simps)
          (simp add: lt inner_loop_passes_erase Some Inr incr_in_loop [OF lt])
      have b: "outer_loop fp n i r = outer_loop fp n (i + 1) r'"
        by (subst outer_loop.simps) (simp add: lt Some Inr incr_in_loop [OF lt])
      show ?thesis unfolding a b Suc.hyps(1) [OF m] k ..
    qed
  qed
qed

text \<open>The counted loops return, after \<open>n * n\<close> executions of the body (none for \<open>n \<le> 0\<close>).\<close>

lemma outer_loop_passes_total:
  "outer_loop_passes fp n 0 (dzero fp) 0 =
     Some (Inr (nested_sum_spec fp (nat (sint n)), nat (sint n) * nat (sint n)))"
  by (simp add: outer_loop_passes_erase outer_loop_total)

text \<open>The call in closed form.\<close>

lemma compute_intensive_call_eq:
  "compute_intensive_call fp self args s =
     (case int_of_args args of
        Inl e \<Rightarrow> Some (Inr (None, 0, s\<lparr>error_indicator := Some e\<rparr>))
      | Inr n \<Rightarrow>
          (if 0 < room s
           then Some (Inr (Some (length (floats s)), nat (sint n) * nat (sint n),
                  s\<lparr>floats := floats s @ [nested_sum_spec fp (nat (sint n))], room := room s - 1\<rparr>))
           else Some (Inr (None, nat (sint n) * nat (sint n), s\<lparr>error_indicator := Some MemoryError\<rparr>))))"
  by (simp add: compute_intensive_call_def PyArg_ParseTuple_int_def PyFloat_FromDouble_def
      outer_loop_passes_total split: sum.split)




text \<open>
  The float object a successful call returns holds the value that the function without
  the host calls returns.
\<close>

lemma compute_intensive_call_value:
  "int_of_args args = Inr n \<Longrightarrow> 0 < room s \<Longrightarrow>
   \<exists>p s'. compute_intensive_call fp self args s = Some (Inr (Some (length (floats s)), p, s')) \<and>
     compute_intensive fp (\<lambda>a. Some n) self args = Some (Inr (floats s' ! length (floats s)))"
  by (simp add: compute_intensive_call_eq compute_intensive_def outer_loop_total)

section \<open>The claims\<close>

text \<open>
  C1.  For every non-negative \<open>n\<close> the function returns the value obtained by starting
  from \<open>0.0\<close> and adding \<open>sin(i) * cos(j)\<close> for all pairs \<open>(i, j)\<close> with
  \<open>0 \<le> i < n\<close> and \<open>0 \<le> j < n\<close>, the outer loop over \<open>i\<close> and the inner loop over
  \<open>j\<close>, every operation being the double-precision one of the platform.
\<close>

theorem compute_intensive_nested_sum:
  "PyArg_ParseTuple_i args = Some n \<Longrightarrow> 0 \<le> sint n \<Longrightarrow>
   compute_intensive fp PyArg_ParseTuple_i self args = Some (Inr (nested_sum_spec fp (nat (sint n))))"
  by (simp add: compute_intensive_def outer_loop_nonneg)

theorem compute_intensive_nested_sum_witness:
  "parse_single [2] = Some 2 \<and> 0 \<le> sint (2::cint) \<and>
   compute_intensive sym_fpu parse_single () [2] =
     Some (Inr (Add (Add (Add (Add Zero
        (Mul (Sin (OfInt 0)) (Cos (OfInt 0))))
        (Mul (Sin (OfInt 0)) (Cos (OfInt 1))))
        (Mul (Sin (OfInt 1)) (Cos (OfInt 0))))
        (Mul (Sin (OfInt 1)) (Cos (OfInt 1)))))"
proof -
  have p: "parse_single [2] = Some 2" by simp
  have z: "0 \<le> sint (2::cint)" by simp
  have u: "[0..<2] = [0, Suc 0]" by (simp add: upt_rec)
  show ?thesis
    using p z compute_intensive_nested_sum [of parse_single "[2]" 2 sym_fpu "()"]
    by (simp add: nested_sum_spec_def sym_fpu_def u)
qed




text \<open>
  C3.  For every \<open>n \<le> 0\<close> the function returns the constant \<open>0.0\<close> the accumulator is
  initialised with, and the body of the loops is executed at no pair of counters.
\<close>

theorem compute_intensive_nonpos:
  "PyArg_ParseTuple_i args = Some n \<Longrightarrow> sint n \<le> 0 \<Longrightarrow>
   compute_intensive fp PyArg_ParseTuple_i self args = Some (Inr (dzero fp)) \<and> \<not> body_runs n i j"
  by (simp add: compute_intensive_def outer_loop_nonpos body_runs_iff)

theorem compute_intensive_nonpos_witness:
  "parse_single [- 5] = Some (- 5) \<and> sint (- 5 :: cint) \<le> 0 \<and>
   compute_intensive sym_fpu parse_single () [- 5] = Some (Inr Zero) \<and> \<not> body_runs (- 5) 0 0 \<and>
   compute_intensive sym_fpu parse_single () [0] = Some (Inr Zero) \<and> \<not> body_runs 0 0 0"
proof -
  have p: "parse_single [- 5] = Some (- 5)" by simp
  have z: "sint (- 5 :: cint) \<le> 0" by simp
  show ?thesis
    using p z compute_intensive_nonpos [of parse_single "[- 5]" "- 5" sym_fpu "()" 0 0]
      compute_intensive_nonpos [of parse_single "[0]" 0 sym_fpu "()" 0 0]
    by (simp add: sym_fpu_def)
qed




text \<open>
  C5.  For \<open>n = 1\<close> the function returns \<open>0.0 + sin(0) * cos(0)\<close>.  With the conversion of
  the integer \<open>0\<close> giving \<open>0.0\<close>, \<open>sin(0.0) = 0.0\<close>, \<open>cos(0.0) = 1.0\<close>,
  \<open>0.0 * 1.0 = 0.0\<close> and \<open>0.0 + 0.0 = 0.0\<close>, that value is \<open>0.0\<close>.
\<close>

theorem compute_intensive_one:
  assumes "PyArg_ParseTuple_i args = Some 1"
    and "dof_int fp 0 = dzero fp"
    and "dsin fp (dzero fp) = dzero fp"
    and "dcos fp (dzero fp) = one"
    and "dmul fp (dzero fp) one = dzero fp"
    and "dadd fp (dzero fp) (dzero fp) = dzero fp"
  shows "compute_intensive fp PyArg_ParseTuple_i self args =
           Some (Inr (dadd fp (dzero fp) (dmul fp (dsin fp (dof_int fp 0)) (dcos fp (dof_int fp 0))))) \<and>
         dmul fp (dsin fp (dof_int fp 0)) (dcos fp (dof_int fp 0)) = dmul fp (dzero fp) one \<and>
         compute_intensive fp PyArg_ParseTuple_i self args = Some (Inr (dzero fp))"
proof -
  have u: "[0..<Suc 0] = [0]" by simp
  have "compute_intensive fp PyArg_ParseTuple_i self args = Some (Inr (nested_sum_spec fp 1))"
    using assms(1) by (simp add: compute_intensive_def outer_loop_total)
  then show ?thesis
    using assms(2-) by (simp add: nested_sum_spec_def u)
qed

theorem compute_intensive_one_witness:
  "parse_single [1] = Some 1 \<and>
   dof_int (ieee_fpu cr_sin cr_cos) 0 = dzero (ieee_fpu cr_sin cr_cos) \<and>
   dsin (ieee_fpu cr_sin cr_cos) (dzero (ieee_fpu cr_sin cr_cos)) = dzero (ieee_fpu cr_sin cr_cos) \<and>
   dcos (ieee_fpu cr_sin cr_cos) (dzero (ieee_fpu cr_sin cr_cos)) = Finite 1 \<and>
   dmul (ieee_fpu cr_sin cr_cos) (dzero (ieee_fpu cr_sin cr_cos)) (Finite 1) = dzero (ieee_fpu cr_sin cr_cos) \<and>
   dadd (ieee_fpu cr_sin cr_cos) (dzero (ieee_fpu cr_sin cr_cos)) (dzero (ieee_fpu cr_sin cr_cos))
     = dzero (ieee_fpu cr_sin cr_cos) \<and>
   compute_intensive (ieee_fpu cr_sin cr_cos) parse_single () [1] = Some (Inr (Finite 0))"
proof -
  have p: "parse_single [1] = Some 1" by simp
  show ?thesis
    using p compute_intensive_one [of parse_single "[1]" "ieee_fpu cr_sin cr_cos" "Finite 1" "()"]
    by (simp add: ieee_fpu_def)
qed

text \<open>
  C6.  The function returns for every argument: when the tuple does not parse it returns
  at once, and for every \<open>n\<close> of the type \<open>int\<close> the two loops come to an end.
\<close>

theorem compute_intensive_terminates:
  "\<exists>r. compute_intensive fp PyArg_ParseTuple_i self args = Some r"
  by (cases "PyArg_ParseTuple_i args") (simp_all add: compute_intensive_def outer_loop_total)

text \<open>
  C7.  The returned value is not monotonic in \<open>n\<close>: on every floating-point unit that is
  accurate in the sense above, the value returned for \<open>n = 4\<close> is smaller than the value
  returned for \<open>n = 2\<close>.
\<close>

theorem compute_intensive_not_monotonic:
  assumes acc: "accurate_fpu fp num"
  shows "\<exists>a b x y. compute_intensive fp Some self 2 = Some (Inr a) \<and> num a = Some x \<and>
                   compute_intensive fp Some self 4 = Some (Inr b) \<and> num b = Some y \<and> y < x"
proof -
  have u2: "[0..<2] = [0, 1]" and u4: "[0..<4] = [0, 1, 2, 3]" by (simp_all add: upt_rec)
  have r2: "compute_intensive fp Some self 2 = Some (Inr (nested_sum_spec fp 2))"
    by (simp add: compute_intensive_def outer_loop_total)
  have r4: "compute_intensive fp Some self 4 = Some (Inr (nested_sum_spec fp 4))"
    by (simp add: compute_intensive_def outer_loop_total)
  have s2: "sum_list (map (\<lambda>(i, j). sin (real i) * cos (real j)) (List.product [0..<2] [0..<2]))
      = sin (1::real) * (1 + cos 1)"
    by (simp add: u2 algebra_simps)
  have s4: "sum_list (map (\<lambda>(i, j). sin (real i) * cos (real j)) (List.product [0..<4] [0..<4]))
      = (sin (1::real) + sin 2 + sin 3) * (1 + cos 1 + cos 2 + cos 3)"
    by (simp add: u4 algebra_simps)
  obtain x where x: "num (nested_sum_spec fp 2) = Some x"
    and a2: "\<bar>x - sin (1::real) * (1 + cos 1)\<bar> \<le> 20 * eps"
    using nested_sum_spec_accuracy [OF acc, of 2] by (auto simp: s2)
  obtain y where y: "num (nested_sum_spec fp 4) = Some y"
    and a4: "\<bar>y - (sin (1::real) + sin 2 + sin 3) * (1 + cos 1 + cos 2 + cos 3)\<bar> \<le> 80 * eps"
    using nested_sum_spec_accuracy [OF acc, of 4] by (auto simp: s4)
  have "y < x" using a2 a4 exact_sum_two exact_sum_four by linarith
  then show ?thesis using r2 r4 x y by blast
qed

theorem compute_intensive_not_monotonic_witness:
  "accurate_fpu (ieee_fpu cr_sin cr_cos) dnum \<and>
   (\<exists>a b x y. compute_intensive (ieee_fpu cr_sin cr_cos) Some () 2 = Some (Inr a) \<and> dnum a = Some x \<and>
             compute_intensive (ieee_fpu cr_sin cr_cos) Some () 4 = Some (Inr b) \<and> dnum b = Some y \<and>
             y < x)"
  using ieee_accurate compute_intensive_not_monotonic [OF ieee_accurate, of "()"] by simp

text \<open>
  C8.  With IEEE double arithmetic and a C library whose \<open>sin\<close> and \<open>cos\<close> map finite
  doubles to finite doubles between \<open>-1\<close> and \<open>1\<close>, the accumulator is finite and at most
  \<open>n\<^sup>2\<close> in magnitude whenever a loop test is evaluated, and so is the value returned:
  it is never an infinity or a NaN.
\<close>

theorem accumulator_stays_finite:
  assumes sn: "unit_range libm_sin" and cs: "unit_range libm_cos"
    and parse: "PyArg_ParseTuple_i args = Some n"
  shows "(at_outer_test (ieee_fpu libm_sin libm_cos) n i r \<longrightarrow>
            dfinite r \<and> \<bar>dval r\<bar> \<le> (real_of_int (sint n))\<^sup>2) \<and>
         (at_inner_test (ieee_fpu libm_sin libm_cos) n i j r \<longrightarrow>
            dfinite r \<and> \<bar>dval r\<bar> \<le> (real_of_int (sint n))\<^sup>2) \<and>
         (\<exists>r'. compute_intensive (ieee_fpu libm_sin libm_cos) PyArg_ParseTuple_i self args = Some (Inr r') \<and>
            dfinite r' \<and> \<bar>dval r'\<bar> \<le> (real_of_int (sint n))\<^sup>2)"
proof -
  let ?F = "ieee_fpu libm_sin libm_cos"
  have sn': "\<And>x. dfinite x \<Longrightarrow> dfinite (libm_sin x) \<and> \<bar>dval (libm_sin x)\<bar> \<le> 1"
    and cs': "\<And>x. dfinite x \<Longrightarrow> dfinite (libm_cos x) \<and> \<bar>dval (libm_cos x)\<bar> \<le> 1"
    using sn cs by (simp_all add: unit_range_def)
  have outer: "dfinite r \<and> \<bar>dval r\<bar> \<le> (real_of_int (sint n))\<^sup>2"
    if at: "at_outer_test ?F n i r" for i r
  proof -
    have c: "0 \<le> sint i" "sint i \<le> max 0 (sint n)" using test_counters(1) [OF at] by simp_all
    have b: "dfinite r" "\<bar>dval r\<bar> \<le> real (nat (sint i) * nat (sint n))"
      using ieee_accumulator(1) [OF sn' cs' at] by simp_all
    have "real (nat (sint i) * nat (sint n)) \<le> (real_of_int (sint n))\<^sup>2"
    proof (cases "0 < sint n")
      case True
      have "nat (sint i) * nat (sint n) \<le> nat (sint n) * nat (sint n)"
        using c True by (intro mult_right_mono) simp_all
      then have "real (nat (sint i) * nat (sint n)) \<le> real (nat (sint n) * nat (sint n))"
        by (rule of_nat_mono)
      also have "\<dots> = (real_of_int (sint n))\<^sup>2" using True by (simp add: power2_eq_square)
      finally show ?thesis .
    next
      case False
      then show ?thesis by simp
    qed
    then show ?thesis using b by simp
  qed
  have inner: "dfinite r \<and> \<bar>dval r\<bar> \<le> (real_of_int (sint n))\<^sup>2"
    if at: "at_inner_test ?F n i j r" for i j r
  proof -
    have c: "0 \<le> sint i" "sint i < sint n" "0 \<le> sint j" "sint j \<le> sint n"
      using test_counters(2) [OF at] by simp_all
    have b: "dfinite r" "\<bar>dval r\<bar> \<le> real (nat (sint i) * nat (sint n) + nat (sint j))"
      using ieee_accumulator(2) [OF sn' cs' at] by simp_all
    show ?thesis using b count_bound [OF c] by simp
  qed
  obtain i' r' where ret: "outer_loop ?F n 0 (dzero ?F) = Some (Inr r')"
    and at: "at_outer_test ?F n i' r'"
    using outer_loop_exit [OF outer_init, of ?F n] by blast
  have "compute_intensive ?F PyArg_ParseTuple_i self args = Some (Inr r')"
    using parse ret by (simp add: compute_intensive_def)
  then show ?thesis using outer inner outer [OF at] by blast
qed

theorem accumulator_stays_finite_witness:
  "unit_range cr_sin \<and> unit_range cr_cos \<and> parse_single [1] = Some 1 \<and>
   at_inner_test (ieee_fpu cr_sin cr_cos) 1 0 1 (Finite 0) \<and>
   (\<exists>r'. compute_intensive (ieee_fpu cr_sin cr_cos) parse_single () [1] = Some (Inr r') \<and>
      dfinite r' \<and> \<bar>dval r'\<bar> \<le> 1)"
proof -
  have p: "parse_single [1] = Some 1" by simp
  have s: "summand (ieee_fpu cr_sin cr_cos) 0 0 = Finite 0"
    by (simp add: summand_def ieee_fpu_def)
  have "at_inner_test (ieee_fpu cr_sin cr_cos) 1 0 0 (Finite 0)"
    using inner_init [OF outer_init, of 1 "ieee_fpu cr_sin cr_cos"] by (simp add: ieee_fpu_def)
  then have "at_inner_test (ieee_fpu cr_sin cr_cos) 1 0 1
      (dadd (ieee_fpu cr_sin cr_cos) (Finite 0) (summand (ieee_fpu cr_sin cr_cos) 0 0))"
    by (rule inner_next) (simp_all add: incr_def INT_MAX_def)
  then have a: "at_inner_test (ieee_fpu cr_sin cr_cos) 1 0 1 (Finite 0)"
    unfolding s by (simp add: ieee_fpu_def)
  show ?thesis
    using cr_unit_range p a
      accumulator_stays_finite [of cr_sin cr_cos parse_single "[1]" 1 0 "Finite 0" 1 "()"]
    by simp
qed

text \<open>
  C9, as stated, fails for negative \<open>n\<close>: the counter \<open>i\<close> is initialised to \<open>0\<close>,
  which exceeds \<open>n = -1\<close>.
\<close>

theorem i_exceeds_negative_n:
  "i_value (- 1) 0 \<and> \<not> sint (0::cint) \<le> sint (- 1 :: cint)"
  by (simp add: i_init)

text \<open>
  C9, amended.  For every \<open>n\<close> of the type \<open>int\<close>: the counter \<open>i\<close> stays between \<open>0\<close>
  and \<open>max(n, 0)\<close> and the counter \<open>j\<close> between \<open>0\<close> and \<open>n\<close>; an increment made
  after a test \<open>k < n\<close> that succeeded does not overflow and adds exactly one; the body
  is executed at exactly the pairs \<open>(i, j)\<close> with \<open>0 \<le> i < n\<close> and \<open>0 \<le> j < n\<close>;
  and the loops end without signed overflow.  This includes \<open>n = INT_MAX\<close>.
\<close>

theorem counters_in_range_no_overflow:
  "(i_value n i \<longrightarrow> 0 \<le> sint i \<and> sint i \<le> max 0 (sint n)) \<and>
   (j_value n j \<longrightarrow> 0 \<le> sint j \<and> sint j \<le> sint n) \<and>
   (sint k < sint n \<longrightarrow> incr k = Inr (k + 1) \<and> sint (k + 1) = sint k + 1) \<and>
   body_runs n i j = (0 \<le> sint i \<and> sint i < sint n \<and> 0 \<le> sint j \<and> sint j < sint n) \<and>
   outer_loop fp n 0 (dzero fp) \<noteq> Some (Inl SignedOverflow)"
  using i_value_range [of n i] j_value_range [of n j] incr_in_loop [of k n]
    sint_succ_in_loop [of k n] body_runs_iff [of n i j] outer_loop_total [of fp n]
  by simp

theorem counters_in_range_no_overflow_witness:
  "i_value 2147483647 2147483646 \<and> j_value 2147483647 2147483646 \<and>
   sint (2147483646 :: cint) < sint (2147483647 :: cint) \<and>
   incr 2147483646 = Inr 2147483647 \<and> sint (2147483647 :: cint) = INT_MAX \<and>
   body_runs 2147483647 2147483646 2147483646 \<and>
   outer_loop sym_fpu 2147483647 0 Zero \<noteq> Some (Inl SignedOverflow)"
  using counters_in_range_no_overflow [of 2147483647 2147483646 2147483646 2147483646 sym_fpu]
  by (simp add: body_runs_def INT_MAX_def sym_fpu_def)

text \<open>
  C10.  With IEEE double arithmetic and a C library whose \<open>sin\<close> and \<open>cos\<close> are
  correctly rounded at 0, 1, 2 and 3, the value returned for \<open>n = 4\<close> differs from the
  factored form computed in double precision: the two doubles are two units in the last
  place apart.
  In exact arithmetic the two forms are equal for every \<open>n\<close> (\<open>factored_exact\<close>).
\<close>

theorem nested_differs_from_factored:
  assumes "correct_upto_3 libm_sin libm_cos"
  shows "compute_intensive (ieee_fpu libm_sin libm_cos) Some self 4 = Some (Inr (Finite (4572439389416505 / 18014398509481984))) \<and>
         factored_spec (ieee_fpu libm_sin libm_cos) 4 = Finite (4572439389416507 / 18014398509481984) \<and>
         compute_intensive (ieee_fpu libm_sin libm_cos) Some self 4
           \<noteq> Some (Inr (factored_spec (ieee_fpu libm_sin libm_cos) 4))"
proof -
  have "compute_intensive (ieee_fpu libm_sin libm_cos) Some self 4
      = Some (Inr (nested_sum_spec (ieee_fpu libm_sin libm_cos) 4))"
    by (simp add: compute_intensive_def outer_loop_total)
  then show ?thesis
    using nested_sum_four [OF assms] factored_four [OF assms] by simp
qed

theorem nested_differs_from_factored_witness:
  "correct_upto_3 cr_sin cr_cos \<and>
   compute_intensive (ieee_fpu cr_sin cr_cos) Some () 4
     \<noteq> Some (Inr (factored_spec (ieee_fpu cr_sin cr_cos) 4)) \<and>
   nested_sum_spec real_fpu 4 = factored_spec real_fpu 4"
proof -
  have c: "correct_upto_3 cr_sin cr_cos" by (simp add: correct_upto_3_def)
  show ?thesis
    using c nested_differs_from_factored [OF c, of "()"] factored_exact [of 4] by simp
qed

end
